theory Spec2Isabelle
  imports Complex_Main "HOL-Library.AList"
begin

section \<open>The gauntlet runner of \<open>scripts/gauntlet.py\<close>\<close>

text \<open>
  The script drives an external program generator (p4smith), an external type checker
  (p4spectec) and an external coverage tool, files every generated program into a
  directory named after its batch and verdict, and measures coverage per batch.
  The external tools are parameters of the model (the record \<open>env\<close>); the file system
  below the project root is an explicit state.

  Python strings are modelled as \<open>string\<close>: a character stands for a code point
  below 256. Python integers are \<open>int\<close>.
\<close>

subsection \<open>String operations of the Python library\<close>

text \<open>\<open>str.lower()\<close> on code points below 256: A-Z and the accented capitals 192-222
  (except the multiplication sign 215) move up by 32.\<close>

definition lower_char :: "char \<Rightarrow> char" where
  "lower_char c =
     (let n = (of_char c :: nat)
      in if (65 \<le> n \<and> n \<le> 90) \<or> (192 \<le> n \<and> n \<le> 222 \<and> n \<noteq> 215)
         then char_of (n + 32) else c)"

definition lower :: "string \<Rightarrow> string" where
  "lower s = map lower_char s"

text \<open>\<open>s.startswith(k)\<close>, \<open>s.endswith(k)\<close> and the substring test \<open>k in s\<close>.\<close>

fun startswith :: "string \<Rightarrow> string \<Rightarrow> bool" where
  "startswith s [] = True"
| "startswith [] (k # ks) = False"
| "startswith (c # cs) (k # ks) = (c = k \<and> startswith cs ks)"

definition endswith :: "string \<Rightarrow> string \<Rightarrow> bool" where
  "endswith s k = startswith (rev s) (rev k)"

fun contains :: "string \<Rightarrow> string \<Rightarrow> bool" where
  "contains [] k = (k = [])"
| "contains (c # cs) k = (startswith (c # cs) k \<or> contains cs k)"

text \<open>\<open>ch.isdigit()\<close> below code point 256: the decimal digits and the superscripts
  two, three (178, 179) and one (185). Only the decimal digits are accepted by \<open>int()\<close>.\<close>

definition is_decimal :: "char \<Rightarrow> bool" where
  "is_decimal c = (48 \<le> (of_char c :: nat) \<and> (of_char c :: nat) \<le> 57)"

definition isdigit :: "char \<Rightarrow> bool" where
  "isdigit c = (is_decimal c \<or> (of_char c :: nat) = 178 \<or> (of_char c :: nat) = 179
                \<or> (of_char c :: nat) = 185)"

text \<open>\<open>int(s)\<close> for a string \<open>s\<close> of \<open>isdigit\<close> characters; \<open>None\<close> is the \<open>ValueError\<close>:
  the empty string, a character that is no decimal digit, or more digit characters
  (leading zeros count) than the interpreter converts. That limit is 4300 unless it is
  reconfigured, which the script does not do.\<close>

definition int_max_str_digits :: nat where
  "int_max_str_digits = 4300"

definition digit_value :: "char \<Rightarrow> int" where
  "digit_value c = int (of_char c) - 48"

definition parse_digits :: "string \<Rightarrow> int" where
  "parse_digits s = foldl (\<lambda>a c. 10 * a + digit_value c) 0 s"

definition py_int :: "string \<Rightarrow> int option" where
  "py_int s =
     (if s = [] \<or> \<not> list_all is_decimal s \<or> int_max_str_digits < length s then None
      else Some (parse_digits s))"

text \<open>The format specifications \<open>{n:05d}\<close> and \<open>{n:02d}\<close>: decimal, padded with zeros after
  the sign to the given minimal width. The interpreter refuses to format a number of more
  than 4300 digits as well; that is not modelled. \<open>_loop_dir_for_program\<close> formats only
  quotients of numbers that \<open>int()\<close> has read, which are shorter, and \<open>run_gauntlet\<close> would
  have to pass \<open>10 ^ 4300\<close> cycles to format such a program count.\<close>

definition digit_char :: "nat \<Rightarrow> char" where
  "digit_char d = char_of (48 + d)"

fun dec :: "nat \<Rightarrow> string" where
  "dec n = (if n < 10 then [digit_char n] else dec (n div 10) @ [digit_char (n mod 10)])"

declare dec.simps [simp del]

definition zfill :: "nat \<Rightarrow> string \<Rightarrow> string" where
  "zfill w s = replicate (w - length s) (CHR ''0'') @ s"

definition format_0d :: "nat \<Rightarrow> int \<Rightarrow> string" where
  "format_0d w n =
     (if n < 0 then CHR ''-'' # zfill (w - 1) (dec (nat (- n)))
      else zfill w (dec (nat n)))"

text \<open>Floor division and remainder; \<open>Inl ZeroDivisionError\<close> is the exception.\<close>

datatype error = ZeroDivisionError

definition py_floordiv :: "int \<Rightarrow> int \<Rightarrow> error + int" where
  "py_floordiv a b = (if b = 0 then Inl ZeroDivisionError else Inr (a div b))"

definition py_mod :: "int \<Rightarrow> int \<Rightarrow> error + int" where
  "py_mod a b = (if b = 0 then Inl ZeroDivisionError else Inr (a mod b))"

subsection \<open>The runner and its paths\<close>

text \<open>A path is the list of its components below the project root.\<close>

type_synonym path = "string list"

record runner =
  loop_size :: int

text \<open>\<open>GauntletRunner.__init__\<close>: the configured loop size is clamped to at least 1.\<close>

definition GauntletRunner_init :: "int \<Rightarrow> runner" where
  "GauntletRunner_init ls = \<lparr> loop_size = max 1 ls \<rparr>"

definition p4c_build_dir :: path where
  "p4c_build_dir = [''p4c'', ''build'']"

definition gauntlet_dir :: path where
  "gauntlet_dir = [''gauntlet'']"

definition program_name :: "int \<Rightarrow> string" where
  "program_name program_count = ''gauntlet'' @ format_0d 5 program_count"

definition loop_name :: "int \<Rightarrow> string" where
  "loop_name loop_index = ''loop'' @ format_0d 2 loop_index"

subsection \<open>Verdicts and classification (\<open>test_p4_program\<close>)\<close>

datatype verdict = WellTyped | IllTyped | IllFormed | Timeout | Error

text \<open>The result of \<open>subprocess.run\<close>: the process ran to its end, or the call raised
  \<open>TimeoutExpired\<close>, or another exception.\<close>

datatype proc_result =
    Completed (returncode: int) (stdout: string) (stderr: string)
  | TimeoutExpired
  | OtherException

text \<open>Lines 192-202: the verdict of a completed run.\<close>

definition classify :: "string \<Rightarrow> string \<Rightarrow> verdict" where
  "classify out err =
     (let output = out @ err
      in if contains (lower output) ''well-typed'' then WellTyped
         else if contains (lower output) ''ill-typed'' then IllTyped
         else if contains (lower output) ''ill-formed'' then IllFormed
         else Error)"

text \<open>\<open>_loop_dir_for_program\<close>: the loop index of a program name, and its directory.\<close>

definition loop_index_for_program :: "runner \<Rightarrow> string \<Rightarrow> error + int" where
  "loop_index_for_program r name =
     (let num_part = filter isdigit name;
          idx = (case py_int num_part of None \<Rightarrow> 0 | Some i \<Rightarrow> i)
      in py_floordiv idx (loop_size r))"

definition loop_dir_for_program :: "runner \<Rightarrow> string \<Rightarrow> error + path" where
  "loop_dir_for_program r name =
     (case loop_index_for_program r name of
        Inl e \<Rightarrow> Inl e
      | Inr loop_index \<Rightarrow> Inr (gauntlet_dir @ [loop_name loop_index]))"

subsection \<open>The file system and the external tools\<close>

text \<open>
  The file system holds the regular files below the project root that the script
  creates, moves, deletes or reads: generated programs and coverage records.
  Directories are not represented (\<open>mkdir\<close> changes nothing here), and failures of
  the operating system other than the ones the script tests for are outside the model.
\<close>

datatype content = Program | Coverage "string set"

type_synonym fs = "(path \<times> content) list"

definition path_exists :: "fs \<Rightarrow> path \<Rightarrow> bool" where
  "path_exists fs p = (map_of fs p \<noteq> None)"

definition unlink :: "fs \<Rightarrow> path \<Rightarrow> fs" where
  "unlink fs p = AList.delete p fs"

text \<open>\<open>shutil.move\<close> of a regular file: the destination is replaced.\<close>

definition move_file :: "fs \<Rightarrow> path \<Rightarrow> path \<Rightarrow> fs" where
  "move_file fs src dst =
     (case map_of fs src of
        None \<Rightarrow> fs
      | Some c \<Rightarrow> AList.update dst c (AList.delete src fs))"

text \<open>\<open>dir.glob(pattern)\<close> with a pattern for one component: the names directly below
  \<open>dir\<close> that match.\<close>

definition glob_children :: "fs \<Rightarrow> path \<Rightarrow> (string \<Rightarrow> bool) \<Rightarrow> string list" where
  "glob_children fs dir pat =
     remdups (map (\<lambda>p. p ! length dir)
       (filter (\<lambda>p. length dir < length p \<and> take (length dir) p = dir \<and> pat (p ! length dir))
          (map fst fs)))"

text \<open>
  What the script cannot decide is a parameter: whether the tools and directories are
  there, what each external process returns and which file it writes, whether a move
  fails, and the seconds elapsed at each stop check (indexed by the program count).
  The generator is taken to write nothing but its output file, the coverage tool nothing
  but the coverage file it is given.
\<close>

record env =
  p4spectec_exists :: bool
  p4smith_found :: bool
  spec_concrete_exists :: bool
  p4include_exists :: bool
  watsup_files :: "string list"
  p4smith :: "string \<Rightarrow> proc_result \<times> bool"
  p4spectec :: "string \<Rightarrow> proc_result"
  cover_dangling :: "fs \<Rightarrow> string \<Rightarrow> proc_result \<times> string set option"
  move_fails :: "string \<Rightarrow> bool"
  elapsed :: "int \<Rightarrow> real"

definition check_dependencies :: "env \<Rightarrow> bool" where
  "check_dependencies env =
     (if \<not> p4spectec_exists env then False
      else if \<not> p4smith_found env then False
      else if \<not> spec_concrete_exists env then False
      else if \<not> p4include_exists env then False
      else True)"

definition p4_file_of :: "string \<Rightarrow> path" where
  "p4_file_of name = p4c_build_dir @ [name @ ''.p4'']"

text \<open>\<open>generate_p4_program\<close>: true when p4smith exits with 0 and the output file exists.\<close>

definition generate_p4_program :: "env \<Rightarrow> fs \<Rightarrow> string \<Rightarrow> bool \<times> fs" where
  "generate_p4_program env fs name =
     (if \<not> p4smith_found env then (False, fs)
      else
        let output_file = p4_file_of name;
            (result, written) = p4smith env name;
            fs' = (if written then AList.update output_file Program fs else fs)
        in case result of
             Completed rc out err \<Rightarrow>
               if rc \<noteq> 0 then (False, fs')
               else if \<not> path_exists fs' output_file then (False, fs')
               else (True, fs')
           | TimeoutExpired \<Rightarrow> (False, fs')
           | OtherException \<Rightarrow> (False, fs'))"

text \<open>\<open>test_p4_program\<close>: the result type; the message returned with it is only printed
  and is left out.\<close>

definition test_p4_program :: "env \<Rightarrow> fs \<Rightarrow> string \<Rightarrow> verdict" where
  "test_p4_program env fs name =
     (if \<not> path_exists fs (p4_file_of name) then Error
      else if watsup_files env = [] then Error
      else case p4spectec env name of
             Completed rc out err \<Rightarrow> classify out err
           | TimeoutExpired \<Rightarrow> Timeout
           | OtherException \<Rightarrow> Error)"

subsection \<open>\<open>categorize_program\<close>\<close>

fun bucket_name :: "verdict \<Rightarrow> string option" where
  "bucket_name WellTyped = Some ''welltyped''"
| "bucket_name IllTyped = Some ''illtyped''"
| "bucket_name IllFormed = Some ''illformed''"
| "bucket_name Timeout = Some ''timeout''"
| "bucket_name Error = None"

definition categorize_program ::
  "env \<Rightarrow> runner \<Rightarrow> fs \<Rightarrow> string \<Rightarrow> verdict \<Rightarrow> error + (bool \<times> fs)" where
  "categorize_program env r fs name result_type =
     (let source_file = p4_file_of name
      in if \<not> path_exists fs source_file then Inr (False, fs)
         else case loop_dir_for_program r name of
                Inl e \<Rightarrow> Inl e
              | Inr loop_dir \<Rightarrow>
                  (case bucket_name result_type of
                     None \<Rightarrow> Inr (False, fs)
                   | Some bucket \<Rightarrow>
                       let dest_dir = loop_dir @ [bucket];
                           dest_file = dest_dir @ [name @ ''.p4'']
                       in if move_fails env name then Inr (False, fs)
                          else Inr (True, move_file fs source_file dest_file)))"

subsection \<open>\<open>print_summary\<close>\<close>

text \<open>The four counts that are printed: files \<open>*.p4\<close> in each verdict directory, summed
  over the directories \<open>loop*\<close> of the gauntlet directory.\<close>

definition is_p4 :: "string \<Rightarrow> bool" where
  "is_p4 f = endswith f ''.p4''"

definition is_loop :: "string \<Rightarrow> bool" where
  "is_loop d = startswith d ''loop''"

definition count_bucket :: "fs \<Rightarrow> string \<Rightarrow> nat" where
  "count_bucket fs bucket =
     sum_list (map (\<lambda>loop_dir. length (glob_children fs (gauntlet_dir @ [loop_dir, bucket]) is_p4))
                (glob_children fs gauntlet_dir is_loop))"

definition print_summary :: "fs \<Rightarrow> nat \<times> nat \<times> nat \<times> nat" where
  "print_summary fs =
     (count_bucket fs ''welltyped'', count_bucket fs ''illtyped'',
      count_bucket fs ''illformed'', count_bucket fs ''timeout'')"


subsection \<open>\<open>measure_loop_coverage\<close>\<close>

text \<open>Modelled from the spec: \<open>coverage_utils\<close> (\<open>read_coverage\<close>, \<open>write_coverage\<close>,
  \<open>union_coverage\<close>) is not part of the sources. A coverage record is a set of item
  identifiers, \<open>union_coverage\<close> is set union; reading something that is no coverage
  record raises (\<open>None\<close>).\<close>

definition read_coverage :: "fs \<Rightarrow> path \<Rightarrow> string set option" where
  "read_coverage fs p = (case map_of fs p of Some (Coverage items) \<Rightarrow> Some items | _ \<Rightarrow> None)"

definition write_coverage :: "fs \<Rightarrow> path \<Rightarrow> string set \<Rightarrow> fs" where
  "write_coverage fs p items = AList.update p (Coverage items) fs"

definition union_coverage :: "string set \<Rightarrow> string set \<Rightarrow> string set" where
  "union_coverage a b = a \<union> b"

definition cov_file_of :: "int \<Rightarrow> path" where
  "cov_file_of loop_index = gauntlet_dir @ [loop_name loop_index @ ''.cov'']"

text \<open>Line 396: the previous record is looked up directly below the project root.\<close>

definition prev_cov_of :: "int \<Rightarrow> path" where
  "prev_cov_of loop_index = [loop_name (loop_index - 1) @ ''.cov'']"

definition measure_loop_coverage :: "env \<Rightarrow> fs \<Rightarrow> int \<Rightarrow> fs" where
  "measure_loop_coverage env fs loop_index =
     (let cov_file = cov_file_of loop_index
      in if watsup_files env = [] then fs
         else
           let (result, written) = cover_dangling env fs (loop_name loop_index);
               fs1 = (case written of
                        None \<Rightarrow> fs
                      | Some items \<Rightarrow> AList.update cov_file (Coverage items) fs)
           in case result of
                Completed rc out err \<Rightarrow>
                  if rc \<noteq> 0 then fs1
                  else if loop_index > 0 then
                    let prev_cov = prev_cov_of loop_index
                    in if path_exists fs1 prev_cov then
                         (case read_coverage fs1 prev_cov of
                            None \<Rightarrow> fs1
                          | Some prev_rec \<Rightarrow>
                              (case read_coverage fs1 cov_file of
                                 None \<Rightarrow> fs1
                               | Some curr_rec \<Rightarrow>
                                   write_coverage fs1 cov_file (union_coverage prev_rec curr_rec)))
                       else fs1
                  else fs1
              | TimeoutExpired \<Rightarrow> fs1
              | OtherException \<Rightarrow> fs1)"

subsection \<open>\<open>run_gauntlet\<close>\<close>

text \<open>The log records what \<open>run_gauntlet\<close> prints and which of \<open>print_summary\<close> and
  \<open>measure_loop_coverage\<close> it calls, in order.\<close>

datatype event =
    DependencyCheckFailed
  | DurationReached
  | CountReached
  | Skipped string
  | ErrorTesting string
  | FailedCategorize string
  | Processed string verdict
  | Summary "nat \<times> nat \<times> nat \<times> nat"
  | MeasureCoverage int
  | GauntletCompleted int

record state =
  program_count :: int
  last_measured_loop_index :: int
  files :: fs
  log :: "event list"

definition emit :: "event \<Rightarrow> state \<Rightarrow> state" where
  "emit e st = st\<lparr> log := log st @ [e] \<rparr>"

text \<open>Lines 314-318, reached only at the end of a cycle that stored its program.\<close>

definition measure_if_loop_completed :: "env \<Rightarrow> runner \<Rightarrow> state \<Rightarrow> error + state" where
  "measure_if_loop_completed env r st =
     (case py_mod (program_count st) (loop_size r) of
        Inl e \<Rightarrow> Inl e
      | Inr m \<Rightarrow>
          if m = 0 then
            (case py_floordiv (program_count st - 1) (loop_size r) of
               Inl e \<Rightarrow> Inl e
             | Inr loop_index \<Rightarrow>
                 Inr ((emit (MeasureCoverage loop_index) st)
                        \<lparr> files := measure_loop_coverage env (files st) loop_index,
                          last_measured_loop_index := loop_index \<rparr>))
          else Inr st)"

text \<open>Lines 283-318: one pass through the body of the loop.\<close>

definition cycle :: "env \<Rightarrow> runner \<Rightarrow> state \<Rightarrow> error + state" where
  "cycle env r st0 =
     (let name = program_name (program_count st0);
          st1 = st0\<lparr> program_count := program_count st0 + 1 \<rparr>;
          (generated, fs1) = generate_p4_program env (files st1) name;
          st2 = st1\<lparr> files := fs1 \<rparr>
      in if \<not> generated then Inr (emit (Skipped name) st2)
         else
           let result_type = test_p4_program env (files st2) name
           in if result_type = Error then
                let temp_file = p4_file_of name;
                    st3 = emit (ErrorTesting name) st2
                in Inr (if path_exists (files st3) temp_file
                        then st3\<lparr> files := unlink (files st3) temp_file \<rparr>
                        else st3)
              else
                (case categorize_program env r (files st2) name result_type of
                   Inl e \<Rightarrow> Inl e
                 | Inr (categorized, fs3) \<Rightarrow>
                     let st3 = st2\<lparr> files := fs3 \<rparr>
                     in if \<not> categorized then Inr (emit (FailedCategorize name) st3)
                        else
                          let st4 = emit (Processed name result_type) st3;
                              st5 = (if program_count st4 mod 10 = 0
                                     then emit (Summary (print_summary (files st4))) st4
                                     else st4)
                          in measure_if_loop_completed env r st5))"

text \<open>\<open>if duration and ...\<close>, \<open>if count and ...\<close>: \<open>None\<close> and 0 are false.\<close>

definition duration_reached :: "env \<Rightarrow> int option \<Rightarrow> state \<Rightarrow> bool" where
  "duration_reached env duration st =
     (case duration of
        None \<Rightarrow> False
      | Some d \<Rightarrow> d \<noteq> 0 \<and> real_of_int d \<le> elapsed env (program_count st))"

definition count_reached :: "int option \<Rightarrow> state \<Rightarrow> bool" where
  "count_reached count st =
     (case count of
        None \<Rightarrow> False
      | Some c \<Rightarrow> c \<noteq> 0 \<and> c \<le> program_count st)"

text \<open>The \<open>while True\<close> loop, with fuel: \<open>None\<close> when the fuel did not suffice, \<open>Some (Inl e)\<close>
  when an exception left the loop. A keyboard interrupt is not modelled.\<close>

fun run_loop ::
  "env \<Rightarrow> runner \<Rightarrow> int option \<Rightarrow> int option \<Rightarrow> nat \<Rightarrow> state \<Rightarrow> (error + state) option" where
  "run_loop env r duration count 0 st = None"
| "run_loop env r duration count (Suc fuel) st =
     (if duration_reached env duration st then Some (Inr (emit DurationReached st))
      else if count_reached count st then Some (Inr (emit CountReached st))
      else case cycle env r st of
             Inl e \<Rightarrow> Some (Inl e)
           | Inr st' \<Rightarrow> run_loop env r duration count fuel st')"

text \<open>Lines 323-329: what follows the loop.\<close>

definition finishing :: "env \<Rightarrow> runner \<Rightarrow> state \<Rightarrow> error + state" where
  "finishing env r st0 =
     (let st1 = emit (GauntletCompleted (program_count st0)) st0
      in if program_count st1 > 0 then
           (case py_floordiv (program_count st1 - 1) (loop_size r) of
              Inl e \<Rightarrow> Inl e
            | Inr final_loop_index \<Rightarrow>
                let st2 = (if final_loop_index \<noteq> last_measured_loop_index st1
                           then (emit (MeasureCoverage final_loop_index) st1)
                                  \<lparr> files := measure_loop_coverage env (files st1) final_loop_index \<rparr>
                           else st1)
                in Inr (emit (Summary (print_summary (files st2))) st2))
         else Inr (emit (Summary (print_summary (files st1))) st1))"

definition initial_state :: "fs \<Rightarrow> state" where
  "initial_state fs =
     \<lparr> program_count = 0, last_measured_loop_index = - 1, files = fs, log = [] \<rparr>"

definition run_gauntlet ::
  "env \<Rightarrow> runner \<Rightarrow> int option \<Rightarrow> int option \<Rightarrow> nat \<Rightarrow> fs \<Rightarrow> (error + state) option" where
  "run_gauntlet env r duration count fuel fs =
     (if \<not> check_dependencies env then Some (Inr (emit DependencyCheckFailed (initial_state fs)))
      else case run_loop env r duration count fuel (initial_state fs) of
             None \<Rightarrow> None
           | Some (Inl e) \<Rightarrow> Some (Inl e)
           | Some (Inr st) \<Rightarrow> Some (finishing env r st))"

subsection \<open>The specification's notions\<close>

text \<open>Case-insensitive occurrence of a keyword in a text, and the classifier as the
  specification words it: the first rule of the precedence list that matches wins.\<close>

definition occurs_ci :: "string \<Rightarrow> string \<Rightarrow> bool" where
  "occurs_ci k text = (\<exists>pre mid post. text = pre @ mid @ post \<and> lower mid = lower k)"

definition precedence :: "(string \<times> verdict) list" where
  "precedence =
     [(''well-typed'', WellTyped), (''ill-typed'', IllTyped), (''ill-formed'', IllFormed)]"

definition classify_spec :: "string \<Rightarrow> verdict" where
  "classify_spec text =
     (case find (\<lambda>(k, v). occurs_ci k text) precedence of
        Some (k, v) \<Rightarrow> v
      | None \<Rightarrow> Error)"

text \<open>The number a string of decimal digits denotes, by position, and the index a program
  name denotes: its digit characters read as one decimal number, 0 when they are none,
  are not all decimal digits, or are more than \<open>int()\<close> converts.\<close>

definition decimal_value :: "string \<Rightarrow> int" where
  "decimal_value ds = (\<Sum>k<length ds. digit_value (ds ! k) * 10 ^ (length ds - 1 - k))"

definition name_index :: "string \<Rightarrow> int" where
  "name_index name =
     (let ds = filter isdigit name
      in if ds \<noteq> [] \<and> (\<forall>c\<in>set ds. is_decimal c) \<and> length ds \<le> int_max_str_digits
         then decimal_value ds else 0)"

subsection \<open>Notions used in the proofs\<close>

text \<open>The paths of the files in a file system, and the stored programs among them: the
  files four or more components deep below the gauntlet directory.\<close>

definition file_paths :: "fs \<Rightarrow> path set" where
  "file_paths fs = fst ` set fs"

definition stored_paths :: "fs \<Rightarrow> path set" where
  "stored_paths fs = {p \<in> file_paths fs. take 1 p = gauntlet_dir \<and> 4 \<le> length p}"

text \<open>Where \<open>categorize_program\<close> puts a program.\<close>

definition dest_path :: "runner \<Rightarrow> string \<Rightarrow> verdict \<Rightarrow> path" where
  "dest_path r name v =
     (case loop_dir_for_program r name of
        Inl e \<Rightarrow> []
      | Inr loop_dir \<Rightarrow>
          (case bucket_name v of
             None \<Rightarrow> []
           | Some bucket \<Rightarrow> loop_dir @ [bucket, name @ ''.p4'']))"


text \<open>The state in which a cycle that stored its program reaches lines 314-318.\<close>

definition stored_state :: "state \<Rightarrow> fs \<Rightarrow> verdict \<Rightarrow> state" where
  "stored_state s fs3 v =
     (let name = program_name (program_count s)
      in \<lparr> program_count = program_count s + 1,
           last_measured_loop_index = last_measured_loop_index s,
           files = fs3,
           log = log s @ Processed name v #
                 (if (program_count s + 1) mod 10 = 0 then [Summary (print_summary fs3)] else []) \<rparr>)"

text \<open>Whether a log ends with a coverage measurement; whether the last cycle of the loop
  did, given the log of the loop, whose last entry is the reason for stopping.\<close>

definition ends_with_measure :: "event list \<Rightarrow> bool" where
  "ends_with_measure lg = (case rev lg of MeasureCoverage l # _ \<Rightarrow> True | _ \<Rightarrow> False)"

definition last_cycle_measured :: "event list \<Rightarrow> bool" where
  "last_cycle_measured lg = ends_with_measure (butlast lg)"

text \<open>The invariant of the loop that relates the program count, the last measured loop
  index and the log.\<close>

definition measure_inv :: "runner \<Rightarrow> state \<Rightarrow> bool" where
  "measure_inv r s =
     (0 \<le> program_count s \<and>
      (if ends_with_measure (log s)
       then 0 \<le> last_measured_loop_index s
            \<and> (last_measured_loop_index s + 1) * loop_size r = program_count s
       else last_measured_loop_index s = - 1
            \<or> (0 \<le> last_measured_loop_index s
                \<and> (last_measured_loop_index s + 1) * loop_size r < program_count s)))"

text \<open>Every cycle logs exactly one outcome for its program: skipped, error, not
  categorized, or processed.\<close>

fun outcome_name :: "event \<Rightarrow> string option" where
  "outcome_name (Skipped n) = Some n"
| "outcome_name (ErrorTesting n) = Some n"
| "outcome_name (FailedCategorize n) = Some n"
| "outcome_name (Processed n v) = Some n"
| "outcome_name e = None"

definition outcomes :: "event list \<Rightarrow> event list" where
  "outcomes lg = filter (\<lambda>e. outcome_name e \<noteq> None) lg"

fun is_processed :: "event \<Rightarrow> bool" where
  "is_processed (Processed n v) = True"
| "is_processed e = False"


text \<open>The oracle ran to its end and its output is not recognised.\<close>

definition oracle_unrecognised :: "env \<Rightarrow> string \<Rightarrow> bool" where
  "oracle_unrecognised env name =
     (case p4spectec env name of
        Completed rc out err \<Rightarrow> classify out err = Error
      | TimeoutExpired \<Rightarrow> False
      | OtherException \<Rightarrow> False)"

text \<open>What the outcome logged for a program must be: it names the program; it is "skipped"
  or "error" when the oracle's output is not recognised.\<close>

definition outcome_ok :: "env \<Rightarrow> string \<Rightarrow> event \<Rightarrow> bool" where
  "outcome_ok env name e =
     (outcome_name e = Some name
      \<and> (oracle_unrecognised env name \<longrightarrow> e = Skipped name \<or> e = ErrorTesting name))"

text \<open>The invariants of the loop on the log and on the files: the outcomes are those of
  the indices 0, 1, ... in order, each as it must be, and every file below the gauntlet
  directory other than a coverage record was put there for a processed program.\<close>

definition log_inv :: "env \<Rightarrow> state \<Rightarrow> bool" where
  "log_inv env s =
     (0 \<le> program_count s
      \<and> length (outcomes (log s)) = nat (program_count s)
      \<and> (\<forall>j < nat (program_count s).
            outcome_ok env (program_name (int j)) (outcomes (log s) ! j)))"

definition files_inv :: "runner \<Rightarrow> state \<Rightarrow> bool" where
  "files_inv r s =
     (\<forall>p \<in> file_paths (files s). take 1 p = gauntlet_dir \<and> length p \<noteq> 2
         \<longrightarrow> (\<exists>n v. Processed n v \<in> set (log s) \<and> p = dest_path r n v))"



text \<open>The specification's reading of the summary rule: a summary follows every tenth
  stored program (\<open>k\<close> programs were stored before the log given).\<close>

fun summary_after_every_10_stored :: "nat \<Rightarrow> event list \<Rightarrow> bool" where
  "summary_after_every_10_stored k [] = True"
| "summary_after_every_10_stored k (Processed name v # rest) =
     ((if Suc k mod 10 = 0 then (case rest of Summary s # _ \<Rightarrow> True | _ \<Rightarrow> False) else True)
      \<and> summary_after_every_10_stored (Suc k) rest)"
| "summary_after_every_10_stored k (e # rest) = summary_after_every_10_stored k rest"

subsection \<open>Concrete environments\<close>

text \<open>All tools are present and succeed; every program is reported well-typed; the
  coverage tool records one item per loop, named after the loop.\<close>

definition env_well_typed :: env where
  "env_well_typed =
     \<lparr> p4spectec_exists = True, p4smith_found = True, spec_concrete_exists = True,
       p4include_exists = True, watsup_files = [''spec.watsup''],
       p4smith = (\<lambda>name. (Completed 0 [] [], True)),
       p4spectec = (\<lambda>name. Completed 0 ''well-typed'' []),
       cover_dangling = (\<lambda>fs loop. (Completed 0 [] [], Some {loop})),
       move_fails = (\<lambda>name. False),
       elapsed = (\<lambda>n. 0) \<rparr>"

text \<open>The same, but p4smith times out for one program.\<close>

definition env_generation_fails :: "string \<Rightarrow> env" where
  "env_generation_fails failing =
     env_well_typed
       \<lparr> p4smith := (\<lambda>name. if name = failing then (TimeoutExpired, False)
                            else (Completed 0 [] [], True)) \<rparr>"



text \<open>The same as the first, but the type checker prints \<open>error: crash\<close>.\<close>

definition env_oracle_crash :: env where
  "env_oracle_crash = env_well_typed \<lparr> p4spectec := (\<lambda>name. Completed 1 ''error: crash'' []) \<rparr>"

section \<open>Properties\<close>

subsection \<open>Strings, numbers and names\<close>

lemma startswith_iff: "startswith s k \<longleftrightarrow> (\<exists>post. s = k @ post)"
  by (induction s k rule: startswith.induct) auto

lemma is_decimal_digit_char: "d < 10 \<Longrightarrow> is_decimal (digit_char d)"
  by (simp add: is_decimal_def digit_char_def)

lemma digit_value_digit_char: "d < 10 \<Longrightarrow> digit_value (digit_char d) = int d"
  by (simp add: digit_value_def digit_char_def)

lemma is_decimal_zero: "is_decimal (CHR ''0'')"
  by (simp add: is_decimal_def)

lemma digit_value_zero: "digit_value (CHR ''0'') = 0"
  by (simp add: digit_value_def)

lemma dec_not_Nil: "dec n \<noteq> []"
  by (subst dec.simps) simp

lemma dec_decimal: "list_all is_decimal (dec n)"
proof (induction n rule: dec.induct)
  case (1 n)
  show ?case
  proof (cases "n < 10")
    case True
    then show ?thesis by (subst dec.simps) (simp add: is_decimal_digit_char)
  next
    case False
    then have "list_all is_decimal (dec (n div 10))" using "1.IH" by simp
    moreover have "is_decimal (digit_char (n mod 10))" by (simp add: is_decimal_digit_char)
    ultimately show ?thesis using False by (subst dec.simps) simp
  qed
qed

lemma parse_digits_snoc: "parse_digits (s @ [c]) = 10 * parse_digits s + digit_value c"
  by (simp add: parse_digits_def)

lemma parse_digits_dec: "parse_digits (dec n) = int n"
proof (induction n rule: dec.induct)
  case (1 n)
  show ?case
  proof (cases "n < 10")
    case True
    then show ?thesis by (subst dec.simps) (simp add: parse_digits_def digit_value_digit_char)
  next
    case False
    then have "parse_digits (dec (n div 10)) = int (n div 10)" using "1.IH" by simp
    then have "parse_digits (dec (n div 10) @ [digit_char (n mod 10)]) = 10 * int (n div 10) + int (n mod 10)"
      by (simp add: parse_digits_snoc digit_value_digit_char)
    also have "\<dots> = int n" by presburger
    finally show ?thesis using False by (subst dec.simps) simp
  qed
qed

lemma foldl_zeros: "foldl (\<lambda>a c. 10 * a + digit_value c) 0 (replicate k (CHR ''0'')) = 0"
  by (induction k) (simp_all add: digit_value_zero)

lemma foldl_zeros_from:
  "foldl (\<lambda>a c. 10 * a + digit_value c) a (replicate k (CHR ''0'')) = a * 10 ^ k"
  by (induction k arbitrary: a) (simp_all add: digit_value_zero)

lemma parse_digits_zfill: "parse_digits (zfill w s) = parse_digits s"
  by (simp add: parse_digits_def zfill_def foldl_zeros)

lemma zfill_decimal: "list_all is_decimal s \<Longrightarrow> list_all is_decimal (zfill w s)"
  by (auto simp: zfill_def list_all_iff is_decimal_zero)

lemma zfill_not_Nil: "s \<noteq> [] \<Longrightarrow> zfill w s \<noteq> []"
  by (simp add: zfill_def)

lemma py_int_decimal:
  "s \<noteq> [] \<Longrightarrow> list_all is_decimal s \<Longrightarrow> length s \<le> int_max_str_digits
     \<Longrightarrow> py_int s = Some (parse_digits s)"
  by (simp add: py_int_def)

lemma py_int_too_long: "int_max_str_digits < length s \<Longrightarrow> py_int s = None"
  by (simp add: py_int_def)

lemma length_zfill: "length (zfill w s) = max w (length s)"
  by (simp add: zfill_def)

lemma length_dec_le: "n < 10 ^ k \<Longrightarrow> 0 < k \<Longrightarrow> length (dec n) \<le> k"
proof (induction k arbitrary: n)
  case 0
  then show ?case by simp
next
  case (Suc k)
  show ?case
  proof (cases "n < 10")
    case True
    then show ?thesis by (subst dec.simps) simp
  next
    case False
    have "0 < k"
    proof (rule ccontr)
      assume "\<not> 0 < k"
      then have "k = 0" by simp
      with Suc.prems(1) False show False by simp
    qed
    moreover have "n div 10 < 10 ^ k" using Suc.prems(1) by (simp add: div_less_iff_less_mult mult.commute)
    ultimately have "length (dec (n div 10)) \<le> k" by (rule Suc.IH [rotated])
    then show ?thesis using False by (subst dec.simps) simp
  qed
qed

lemma length_dec_gt: "10 ^ k \<le> n \<Longrightarrow> k < length (dec n)"
proof (induction k arbitrary: n)
  case 0
  then show ?case using dec_not_Nil [of n] by simp
next
  case (Suc k)
  then have "10 \<le> n"
    by (metis le_trans one_le_numeral one_le_power power_Suc mult.right_neutral mult_le_mono2)
  moreover have "10 ^ k \<le> n div 10" using Suc.prems by (simp add: less_eq_div_iff_mult_less_eq mult.commute)
  then have "k < length (dec (n div 10))" by (rule Suc.IH)
  ultimately show ?case by (subst dec.simps) simp
qed

lemma filter_isdigit_decimal: "list_all is_decimal s \<Longrightarrow> filter isdigit s = s"
  by (induction s) (simp_all add: isdigit_def)

lemma format_0d_nonneg:
  assumes "0 \<le> n"
  shows "format_0d w n = zfill w (dec (nat n))"
  using assms by (simp add: format_0d_def)

lemma parse_digits_format_0d:
  assumes "0 \<le> n"
  shows "parse_digits (format_0d w n) = n"
  using assms by (simp add: format_0d_nonneg parse_digits_zfill parse_digits_dec)

lemma length_format_0d_le:
  assumes "0 \<le> n" "n < 10 ^ int_max_str_digits" "w \<le> int_max_str_digits"
  shows "length (format_0d w n) \<le> int_max_str_digits"
proof -
  have "nat n < 10 ^ int_max_str_digits"
    using assms(1,2) by (simp add: nat_less_iff)
  moreover have "0 < int_max_str_digits" by (simp add: int_max_str_digits_def)
  ultimately have "length (dec (nat n)) \<le> int_max_str_digits" by (rule length_dec_le)
  then show ?thesis
    using assms(1,3) by (simp add: format_0d_nonneg length_zfill)
qed

lemma length_format_0d_gt:
  assumes "10 ^ int_max_str_digits \<le> n"
  shows "int_max_str_digits < length (format_0d w n)"
proof -
  have n0: "0 \<le> n" using assms by (meson le_numeral_extra(3) order_trans zero_le_numeral zero_le_power)
  have "(10::nat) ^ int_max_str_digits \<le> nat n"
    using assms by (simp add: le_nat_iff)
  then have "int_max_str_digits < length (dec (nat n))" by (rule length_dec_gt)
  then show ?thesis
    using n0 by (simp add: format_0d_nonneg length_zfill)
qed

lemma py_int_format_0d:
  assumes "0 \<le> n" "n < 10 ^ int_max_str_digits" "w \<le> int_max_str_digits"
  shows "py_int (format_0d w n) = Some n"
proof -
  have "list_all is_decimal (format_0d w n)"
    using assms(1) by (simp add: format_0d_nonneg zfill_decimal dec_decimal)
  moreover have "format_0d w n \<noteq> []"
    using assms(1) by (simp add: format_0d_nonneg zfill_not_Nil dec_not_Nil)
  ultimately have "py_int (format_0d w n) = Some (parse_digits (format_0d w n))"
    using length_format_0d_le [OF assms] by (simp add: py_int_decimal)
  then show ?thesis using assms(1) by (simp add: parse_digits_format_0d)
qed

lemma filter_isdigit_gauntlet: "filter isdigit ''gauntlet'' = []"
  by (simp add: isdigit_def is_decimal_def)

lemma digits_of_program_name:
  assumes "0 \<le> i"
  shows "filter isdigit (program_name i) = format_0d 5 i"
proof -
  have "list_all is_decimal (format_0d 5 i)"
    using assms by (simp add: format_0d_nonneg zfill_decimal dec_decimal)
  then have "filter isdigit (format_0d 5 i) = format_0d 5 i"
    by (rule filter_isdigit_decimal)
  moreover have "filter isdigit (''gauntlet'' @ format_0d 5 i)
      = filter isdigit ''gauntlet'' @ filter isdigit (format_0d 5 i)"
    by (rule filter_append)
  ultimately show ?thesis
    unfolding program_name_def by (simp only: filter_isdigit_gauntlet append_Nil)
qed

lemma parse_of_program_name:
  assumes "0 \<le> i"
  shows "parse_digits (filter isdigit (program_name i)) = i"
  using assms by (simp add: digits_of_program_name parse_digits_format_0d)

lemma index_of_program_name:
  assumes "0 \<le> i" "i < 10 ^ int_max_str_digits"
  shows "py_int (filter isdigit (program_name i)) = Some i"
proof -
  have "(5::nat) \<le> int_max_str_digits"
    by (simp add: int_max_str_digits_def)
  with assms have "py_int (format_0d 5 i) = Some i"
    by (rule py_int_format_0d)
  then show ?thesis
    using assms(1) by (simp only: digits_of_program_name)
qed

lemma index_of_long_program_name:
  assumes "10 ^ int_max_str_digits \<le> i"
  shows "py_int (filter isdigit (program_name i)) = None"
proof -
  have "0 \<le> i" using assms by (meson le_numeral_extra(3) order_trans zero_le_numeral zero_le_power)
  then show ?thesis
    using length_format_0d_gt [OF assms, of 5]
    by (simp add: digits_of_program_name py_int_too_long)
qed

lemma program_name_inj:
  assumes "0 \<le> i" "0 \<le> j" "program_name i = program_name j"
  shows "i = j"
proof -
  have "i = parse_digits (filter isdigit (program_name i))"
    using parse_of_program_name [OF assms(1)] by (rule sym)
  also have "\<dots> = parse_digits (filter isdigit (program_name j))"
    by (simp only: assms(3))
  also have "\<dots> = j"
    by (rule parse_of_program_name [OF assms(2)])
  finally show ?thesis .
qed


lemma contains_iff: "contains s k \<longleftrightarrow> (\<exists>pre post. s = pre @ k @ post)"
proof (induction s)
  case Nil
  then show ?case by simp
next
  case (Cons c cs)
  show ?case
  proof
    assume "contains (c # cs) k"
    then consider "startswith (c # cs) k" | "contains cs k" by auto
    then show "\<exists>pre post. c # cs = pre @ k @ post"
    proof cases
      case 1
      then obtain post where "c # cs = k @ post" using startswith_iff by blast
      then have "c # cs = [] @ k @ post" by simp
      then show ?thesis by blast
    next
      case 2
      then obtain pre post where "cs = pre @ k @ post" using Cons.IH by blast
      then have "c # cs = (c # pre) @ k @ post" by simp
      then show ?thesis by blast
    qed
  next
    assume "\<exists>pre post. c # cs = pre @ k @ post"
    then obtain pre post where e: "c # cs = pre @ k @ post" by blast
    show "contains (c # cs) k"
    proof (cases pre)
      case Nil
      with e have "startswith (c # cs) k" using startswith_iff by auto
      then show ?thesis by simp
    next
      case (Cons p ps)
      with e have "cs = ps @ k @ post" by simp
      then have "contains cs k" using Cons.IH by blast
      then show ?thesis by simp
    qed
  qed
qed

lemma occurs_ci_iff: "occurs_ci k text \<longleftrightarrow> contains (lower text) (lower k)"
proof
  assume "occurs_ci k text"
  then obtain pre mid post where "text = pre @ mid @ post" and "lower mid = lower k"
    unfolding occurs_ci_def by blast
  then have "lower text = lower pre @ lower k @ lower post"
    by (simp add: lower_def)
  then show "contains (lower text) (lower k)"
    using contains_iff by blast
next
  assume "contains (lower text) (lower k)"
  then obtain a b where "map lower_char text = a @ lower k @ b"
    using contains_iff unfolding lower_def by blast
  then obtain us vs where t1: "text = us @ vs" and "a = map lower_char us"
    and "lower k @ b = map lower_char vs"
    by (auto simp: map_eq_append_conv)
  then obtain ms ws where t2: "vs = ms @ ws" and "lower k = map lower_char ms"
    by (metis map_eq_append_conv)
  then have "text = us @ ms @ ws \<and> lower ms = lower k"
    using t1 by (simp add: lower_def)
  then show "occurs_ci k text"
    unfolding occurs_ci_def by blast
qed

lemma lower_keywords:
  "lower ''well-typed'' = ''well-typed''"
  "lower ''ill-typed'' = ''ill-typed''"
  "lower ''ill-formed'' = ''ill-formed''"
  by code_simp+

subsection \<open>Classification\<close>

text \<open>C3: the verdict of a completed oracle run is found by a first-match-wins,
  case-insensitive substring search over stdout followed by stderr, in the order
  well-typed, ill-typed, ill-formed, else Error. A text in which ill-typed and ill-formed
  both occur and well-typed does not is classified IllTyped.\<close>

theorem classify_first_match_case_insensitive:
  "classify out err = classify_spec (out @ err)
   \<and> (occurs_ci ''ill-typed'' (out @ err) \<and> occurs_ci ''ill-formed'' (out @ err)
        \<and> \<not> occurs_ci ''well-typed'' (out @ err)
      \<longrightarrow> classify out err = IllTyped)"
  by (simp add: classify_def classify_spec_def precedence_def occurs_ci_iff lower_keywords
      del: contains.simps)

theorem classify_first_match_case_insensitive_witness:
  "occurs_ci ''ill-typed'' (''result: ill-formed but also ill-typed'' @ [])
   \<and> occurs_ci ''ill-formed'' (''result: ill-formed but also ill-typed'' @ [])
   \<and> \<not> occurs_ci ''well-typed'' (''result: ill-formed but also ill-typed'' @ [])
   \<and> classify ''result: ill-formed but also ill-typed'' [] = IllTyped
   \<and> classify_spec (''result: ill-formed but also ill-typed'' @ []) = IllTyped"
proof -
  let ?t = "''result: ill-formed but also ill-typed''"
  have a: "contains (lower (?t @ [])) (lower ''ill-typed'')" by code_simp
  have b: "contains (lower (?t @ [])) (lower ''ill-formed'')" by code_simp
  have c: "\<not> contains (lower (?t @ [])) (lower ''well-typed'')" by code_simp
  have h: "occurs_ci ''ill-typed'' (?t @ []) \<and> occurs_ci ''ill-formed'' (?t @ [])
        \<and> \<not> occurs_ci ''well-typed'' (?t @ [])"
    unfolding occurs_ci_iff using a b c by blast
  from classify_first_match_case_insensitive [of ?t "[]"] h
  show ?thesis by metis
qed

lemma decimal_value_snoc: "decimal_value (ds @ [c]) = 10 * decimal_value ds + digit_value c"
proof -
  have "(\<Sum>k<length ds. digit_value ((ds @ [c]) ! k) * 10 ^ (length ds - k))
      = (\<Sum>k<length ds. 10 * (digit_value (ds ! k) * 10 ^ (length ds - 1 - k)))"
  proof (rule sum.cong)
    fix k assume "k \<in> {..<length ds}"
    then have k: "k < length ds" by simp
    then have "(10::int) ^ (length ds - k) = 10 * 10 ^ (length ds - 1 - k)"
      by (metis Suc_diff_Suc diff_Suc_eq_diff_pred diff_commute power_Suc)
    then show "digit_value ((ds @ [c]) ! k) * 10 ^ (length ds - k)
        = 10 * (digit_value (ds ! k) * 10 ^ (length ds - 1 - k))"
      using k by (simp add: nth_append)
  qed simp
  then show ?thesis
    by (simp add: decimal_value_def sum_distrib_left)
qed

lemma parse_digits_decimal_value: "parse_digits ds = decimal_value ds"
proof (induction ds rule: rev_induct)
  case Nil
  then show ?case by (simp add: parse_digits_def decimal_value_def)
next
  case (snoc c ds)
  then show ?case by (simp add: parse_digits_snoc decimal_value_snoc)
qed

lemma loop_size_init: "loop_size (GauntletRunner_init ls) = max 1 ls"
  by (simp add: GauntletRunner_init_def)

lemma loop_index_for_program_init:
  "loop_index_for_program (GauntletRunner_init ls) name
     = Inr ((case py_int (filter isdigit name) of None \<Rightarrow> 0 | Some i \<Rightarrow> i) div max 1 ls)"
  by (simp add: loop_index_for_program_def py_floordiv_def loop_size_init max_def)

subsection \<open>The loop index of a program\<close>

text \<open>C7, as stated, fails: the index 10 ^ 4300 is written with 4301 digits, which
  \<open>int()\<close> does not convert (it raises \<open>ValueError\<close>, which is caught), so the program
  named after it goes to loop 0 and not to loop \<open>10 ^ 4300 div 1\<close>.\<close>

theorem loop_index_beyond_digit_limit:
  "loop_index_for_program (GauntletRunner_init 1)
       (''gauntlet'' @ CHR ''1'' # replicate 4300 (CHR ''0'')) = Inr 0
   \<and> decimal_value (CHR ''1'' # replicate 4300 (CHR ''0'')) = 10 ^ 4300
   \<and> (10::int) ^ 4300 div max 1 1 \<noteq> 0"
proof -
  let ?n = "int_max_str_digits"
  let ?ds = "CHR ''1'' # replicate ?n (CHR ''0'')"
  have dec: "list_all is_decimal ?ds"
    by (simp add: list_all_iff is_decimal_def)
  have "filter isdigit (''gauntlet'' @ ?ds) = filter isdigit ''gauntlet'' @ filter isdigit ?ds"
    by (rule filter_append)
  also have "\<dots> = ?ds"
    using filter_isdigit_decimal [OF dec] by (simp only: filter_isdigit_gauntlet append_Nil)
  finally have ds: "filter isdigit (''gauntlet'' @ ?ds) = ?ds" .
  have "int_max_str_digits < length ?ds" by simp
  then have "py_int ?ds = None" by (rule py_int_too_long)
  then have a: "loop_index_for_program (GauntletRunner_init 1) (''gauntlet'' @ ?ds) = Inr 0"
    unfolding loop_index_for_program_init ds by simp
  have "digit_value (CHR ''1'') = 1"
    by (simp add: digit_value_def)
  then have "parse_digits ?ds = 10 ^ ?n"
    by (simp add: parse_digits_def foldl_zeros_from)
  then have b: "decimal_value ?ds = 10 ^ ?n"
    by (simp only: parse_digits_decimal_value)
  have c: "(10::int) ^ ?n div max 1 1 \<noteq> 0"
    by simp
  from a b c
  have "loop_index_for_program (GauntletRunner_init 1) (''gauntlet'' @ ?ds) = Inr 0
     \<and> decimal_value ?ds = 10 ^ ?n \<and> (10::int) ^ ?n div max 1 1 \<noteq> 0"
    by blast
  then show ?thesis
    unfolding int_max_str_digits_def .
qed

text \<open>C7, as the code has it: for every index \<open>i\<close> from 0 up to, but not including,
  \<open>10 ^ 4300\<close> (the indices \<open>int()\<close> reads back from the name) and every configured loop
  size, the loop index computed for the program named after \<open>i\<close> is
  \<open>i div max 1 loopSize\<close>: a configured size of 0 or less acts as 1, the computation
  never raises, and the result is non-negative and non-decreasing in \<open>i\<close>.\<close>

theorem loop_index_is_clamped_division:
  "0 \<le> i \<and> i < 10 ^ int_max_str_digits \<longrightarrow>
     loop_index_for_program (GauntletRunner_init ls) (program_name i) = Inr (i div max 1 ls)
     \<and> (ls \<le> 0 \<longrightarrow> loop_index_for_program (GauntletRunner_init ls) (program_name i) = Inr i)
     \<and> (\<forall>j. i \<le> j \<and> j < 10 ^ int_max_str_digits \<longrightarrow>
          (\<exists>a b. loop_index_for_program (GauntletRunner_init ls) (program_name i) = Inr a
               \<and> loop_index_for_program (GauntletRunner_init ls) (program_name j) = Inr b
               \<and> 0 \<le> a \<and> a \<le> b))"
proof
  assume "0 \<le> i \<and> i < 10 ^ int_max_str_digits"
  then have i: "0 \<le> i" and il: "i < 10 ^ int_max_str_digits" by simp_all
  have at: "loop_index_for_program (GauntletRunner_init ls) (program_name k) = Inr (k div max 1 ls)"
    if "0 \<le> k" "k < 10 ^ int_max_str_digits" for k
    using that by (simp add: loop_index_for_program_init index_of_program_name)
  have clamp: "ls \<le> 0 \<Longrightarrow> i div max 1 ls = i" by (simp add: max_def)
  have mono: "i div max 1 ls \<le> j div max 1 ls" if "i \<le> j" for j
    using that by (simp add: zdiv_mono1 max_def)
  have nonneg: "0 \<le> i div max 1 ls"
    using i by (simp add: pos_imp_zdiv_nonneg_iff max_def)
  have ati: "loop_index_for_program (GauntletRunner_init ls) (program_name i)
      = Inr (i div max 1 ls)"
    using at [OF i il] .
  have cl: "loop_index_for_program (GauntletRunner_init ls) (program_name i) = Inr i"
    if "ls \<le> 0"
    using ati clamp [OF that] by simp
  have mn: "\<exists>a b. loop_index_for_program (GauntletRunner_init ls) (program_name i) = Inr a
               \<and> loop_index_for_program (GauntletRunner_init ls) (program_name j) = Inr b
               \<and> 0 \<le> a \<and> a \<le> b"
    if "i \<le> j \<and> j < 10 ^ int_max_str_digits" for j
  proof -
    have "0 \<le> j" using i that by simp
    then have "loop_index_for_program (GauntletRunner_init ls) (program_name j)
        = Inr (j div max 1 ls)"
      using at that by blast
    then show ?thesis using ati nonneg mono that by blast
  qed
  show "loop_index_for_program (GauntletRunner_init ls) (program_name i) = Inr (i div max 1 ls)
     \<and> (ls \<le> 0 \<longrightarrow> loop_index_for_program (GauntletRunner_init ls) (program_name i) = Inr i)
     \<and> (\<forall>j. i \<le> j \<and> j < 10 ^ int_max_str_digits \<longrightarrow>
          (\<exists>a b. loop_index_for_program (GauntletRunner_init ls) (program_name i) = Inr a
               \<and> loop_index_for_program (GauntletRunner_init ls) (program_name j) = Inr b
               \<and> 0 \<le> a \<and> a \<le> b))"
    using ati cl mn by blast
qed

theorem loop_index_is_clamped_division_witness:
  "(0::int) \<le> 17 \<and> (17::int) < 10 ^ int_max_str_digits
   \<and> loop_index_for_program (GauntletRunner_init 5) (program_name 17) = Inr 3
   \<and> loop_index_for_program (GauntletRunner_init 0) (program_name 17) = Inr 17
   \<and> loop_index_for_program (GauntletRunner_init (- 4)) (program_name 17) = Inr 17
   \<and> (17::int) \<le> 23 \<and> (23::int) < 10 ^ int_max_str_digits
   \<and> loop_index_for_program (GauntletRunner_init 5) (program_name 23) = Inr 4"
proof -
  have p: "(10::int) ^ 2 \<le> 10 ^ int_max_str_digits"
    by (rule power_increasing) (simp_all add: int_max_str_digits_def)
  have q: "(17::int) < 10 ^ 2" "(23::int) < 10 ^ 2"
    by simp_all
  have b: "(17::int) < 10 ^ int_max_str_digits" "(23::int) < 10 ^ int_max_str_digits"
    using q(1) p apply (rule less_le_trans)
    using q(2) p apply (rule less_le_trans)
    done
  have d: "(17::int) div max 1 5 = 3" "(17::int) div max 1 0 = 17" "(17::int) div max 1 (- 4) = 17"
    "(23::int) div max 1 5 = 4"
    by simp_all
  from loop_index_is_clamped_division [of 17 5] b
  have "loop_index_for_program (GauntletRunner_init 5) (program_name 17) = Inr (17 div max 1 5)"
    by simp
  moreover from loop_index_is_clamped_division [of 17 0] b
  have "loop_index_for_program (GauntletRunner_init 0) (program_name 17) = Inr (17 div max 1 0)"
    by simp
  moreover from loop_index_is_clamped_division [of 17 "- 4"] b
  have "loop_index_for_program (GauntletRunner_init (- 4)) (program_name 17)
      = Inr (17 div max 1 (- 4))"
    by simp
  moreover from loop_index_is_clamped_division [of 23 5] b
  have "loop_index_for_program (GauntletRunner_init 5) (program_name 23) = Inr (23 div max 1 5)"
    by simp
  ultimately show ?thesis
    unfolding d using b by simp
qed

text \<open>C10: the loop directory is defined for every name. The digit characters of the
  name, wherever they stand, are read as one decimal number; when \<open>int()\<close> does not accept
  them (there are none, they are not all decimal digits, or they are more than 4300), the
  index is 0 and the directory is \<open>loop00\<close>.\<close>

theorem loop_dir_total_with_default:
  "loop_dir_for_program (GauntletRunner_init ls) name
     = Inr (gauntlet_dir @ [loop_name (name_index name div max 1 ls)])
   \<and> (filter isdigit name = [] \<or> \<not> list_all is_decimal (filter isdigit name)
        \<or> int_max_str_digits < length (filter isdigit name)
       \<longrightarrow> loop_dir_for_program (GauntletRunner_init ls) name = Inr [''gauntlet'', ''loop00''])"
proof -
  let ?ds = "filter isdigit name"
  let ?valid = "?ds \<noteq> [] \<and> (\<forall>c\<in>set ?ds. is_decimal c) \<and> length ?ds \<le> int_max_str_digits"
  have idx: "(case py_int ?ds of None \<Rightarrow> 0 | Some i \<Rightarrow> i) = name_index name"
  proof (cases ?valid)
    case True
    then have "py_int ?ds = Some (decimal_value ?ds)"
      by (simp add: py_int_decimal list_all_iff parse_digits_decimal_value)
    moreover have "name_index name = decimal_value ?ds"
      using True by (simp add: name_index_def)
    ultimately show ?thesis by simp
  next
    case False
    then have "py_int ?ds = None"
      unfolding py_int_def list_all_iff by auto
    moreover have "name_index name = 0"
      using False by (auto simp: name_index_def Let_def)
    ultimately show ?thesis by simp
  qed
  have dir: "loop_dir_for_program (GauntletRunner_init ls) name
     = Inr (gauntlet_dir @ [loop_name (name_index name div max 1 ls)])"
    by (simp add: loop_dir_for_program_def loop_index_for_program_init idx)
  have l0: "loop_name 0 = ''loop00''" by code_simp
  have "name_index name = 0"
    if "?ds = [] \<or> \<not> list_all is_decimal ?ds \<or> int_max_str_digits < length ?ds"
  proof -
    from that have "\<not> ?valid"
      by (auto simp: list_all_iff)
    then show ?thesis
      by (auto simp: name_index_def Let_def)
  qed
  then show ?thesis
    using dir l0 by (auto simp: gauntlet_dir_def)
qed

theorem loop_dir_total_with_default_witness:
  "filter isdigit ''nodigits'' = []
   \<and> loop_dir_for_program (GauntletRunner_init 5) ''nodigits'' = Inr [''gauntlet'', ''loop00'']
   \<and> int_max_str_digits < length (filter isdigit (replicate 4301 (CHR ''7'')))
   \<and> loop_dir_for_program (GauntletRunner_init 5) (replicate 4301 (CHR ''7''))
       = Inr [''gauntlet'', ''loop00'']
   \<and> name_index ''a1b7'' = 17
   \<and> loop_dir_for_program (GauntletRunner_init 5) ''a1b7'' = Inr [''gauntlet'', ''loop03'']"
proof -
  have a: "filter isdigit ''nodigits'' = []" by code_simp
  have b: "loop_name (17 div max 1 5) = ''loop03''" by code_simp
  have "filter isdigit ''a1b7'' = ''17''"
    by (simp add: isdigit_def is_decimal_def)
  moreover have "length ''17'' \<le> int_max_str_digits"
    by (simp add: int_max_str_digits_def)
  moreover have "parse_digits ''17'' = 17"
    by (simp add: parse_digits_def digit_value_def)
  ultimately have c: "name_index ''a1b7'' = 17"
    by (simp add: name_index_def is_decimal_def parse_digits_decimal_value [symmetric])
  have "isdigit (CHR ''7'')" by (simp add: isdigit_def is_decimal_def)
  then have f: "int_max_str_digits < length (filter isdigit (replicate 4301 (CHR ''7'')))"
    by (simp add: int_max_str_digits_def)
  from loop_dir_total_with_default [of 5 "''nodigits''"] a
  have d: "loop_dir_for_program (GauntletRunner_init 5) ''nodigits'' = Inr [''gauntlet'', ''loop00'']"
    by blast
  from loop_dir_total_with_default [of 5 "replicate 4301 (CHR ''7'')"] f
  have g: "loop_dir_for_program (GauntletRunner_init 5) (replicate 4301 (CHR ''7''))
       = Inr [''gauntlet'', ''loop00'']"
    by blast
  from loop_dir_total_with_default [of 5 "''a1b7''"]
  have "loop_dir_for_program (GauntletRunner_init 5) ''a1b7''
      = Inr (gauntlet_dir @ [loop_name (name_index ''a1b7'' div max 1 5)])"
    by blast
  then have e: "loop_dir_for_program (GauntletRunner_init 5) ''a1b7'' = Inr [''gauntlet'', ''loop03'']"
    unfolding c b gauntlet_dir_def by simp
  show ?thesis
    using a c d e f g by blast
qed

subsection \<open>Relocation\<close>

lemma map_of_move_file:
  "map_of fs src = Some c \<Longrightarrow>
   map_of (move_file fs src dst) = ((map_of fs)(src := None))(dst \<mapsto> c)"
  by (simp add: move_file_def update_conv' delete_conv')

text \<open>C6: once \<open>categorize_program\<close> has relocated a program, the bucket of its verdict
  holds the file and the staging file is gone; relocating again with the same name and
  verdict returns without changing the file system.\<close>

theorem relocation_idempotent:
  assumes "categorize_program env r fs name v = Inr (True, fs')"
  shows "(\<exists>loop_dir bucket. loop_dir_for_program r name = Inr loop_dir
            \<and> bucket_name v = Some bucket
            \<and> path_exists fs' (loop_dir @ [bucket, name @ ''.p4'']))
         \<and> \<not> path_exists fs' (p4_file_of name)
         \<and> categorize_program env' r fs' name v = Inr (False, fs')"
proof -
  from assms have src: "path_exists fs (p4_file_of name)"
    by (auto simp: categorize_program_def Let_def split: if_splits)
  then obtain c where c: "map_of fs (p4_file_of name) = Some c"
    by (auto simp: path_exists_def)
  from assms src obtain loop_dir bucket where
    ld: "loop_dir_for_program r name = Inr loop_dir" and
    b: "bucket_name v = Some bucket" and
    fs': "fs' = move_file fs (p4_file_of name) (loop_dir @ [bucket, name @ ''.p4''])"
    by (auto simp: categorize_program_def Let_def split: if_splits sum.splits option.splits)
  from ld have "length loop_dir = 2"
    by (auto simp: loop_dir_for_program_def gauntlet_dir_def split: sum.splits)
  then have ne: "loop_dir @ [bucket, name @ ''.p4''] \<noteq> p4_file_of name"
    by (auto simp: p4_file_of_def p4c_build_dir_def)
  have m: "map_of fs' = ((map_of fs)(p4_file_of name := None))(loop_dir @ [bucket, name @ ''.p4''] \<mapsto> c)"
    unfolding fs' using c by (rule map_of_move_file)
  have dest: "path_exists fs' (loop_dir @ [bucket, name @ ''.p4''])"
    by (simp add: path_exists_def m)
  have gone: "\<not> path_exists fs' (p4_file_of name)"
    using ne by (simp add: path_exists_def m)
  have again: "categorize_program env' r fs' name v = Inr (False, fs')"
    using gone by (simp add: categorize_program_def Let_def)
  show ?thesis
    using ld b dest gone again by blast
qed

theorem relocation_idempotent_witness:
  "categorize_program env_well_typed (GauntletRunner_init 5)
      [(p4_file_of ''gauntlet00007'', Program)] ''gauntlet00007'' WellTyped
     = Inr (True, [([''gauntlet'', ''loop01'', ''welltyped'', ''gauntlet00007.p4''], Program)])
   \<and> categorize_program (env_generation_fails [])  (GauntletRunner_init 5)
      [([''gauntlet'', ''loop01'', ''welltyped'', ''gauntlet00007.p4''], Program)]
      ''gauntlet00007'' WellTyped
     = Inr (False, [([''gauntlet'', ''loop01'', ''welltyped'', ''gauntlet00007.p4''], Program)])"
proof -
  have first: "categorize_program env_well_typed (GauntletRunner_init 5)
      [(p4_file_of ''gauntlet00007'', Program)] ''gauntlet00007'' WellTyped
     = Inr (True, [([''gauntlet'', ''loop01'', ''welltyped'', ''gauntlet00007.p4''], Program)])"
    by code_simp
  from relocation_idempotent [OF first] first show ?thesis by blast
qed

subsection \<open>One cycle\<close>

lemma emit_simps [simp]:
  "program_count (emit e s) = program_count s"
  "last_measured_loop_index (emit e s) = last_measured_loop_index s"
  "files (emit e s) = files s"
  "log (emit e s) = log s @ [e]"
  by (simp_all add: emit_def)

lemma measure_if_loop_completed_cases:
  assumes "measure_if_loop_completed env r s = Inr s'"
  shows "loop_size r \<noteq> 0 \<and> program_count s' = program_count s \<and>
    ((program_count s mod loop_size r = 0
        \<and> last_measured_loop_index s' = (program_count s - 1) div loop_size r
        \<and> files s' = measure_loop_coverage env (files s) ((program_count s - 1) div loop_size r)
        \<and> log s' = log s @ [MeasureCoverage ((program_count s - 1) div loop_size r)])
     \<or> (program_count s mod loop_size r \<noteq> 0 \<and> s' = s))"
  using assms
  by (auto simp: measure_if_loop_completed_def py_mod_def py_floordiv_def split: if_splits)

lemma measure_if_loop_completed_ok:
  assumes "loop_size r \<noteq> 0"
  shows "\<exists>s'. measure_if_loop_completed env r s = Inr s'"
  using assms
  by (simp add: measure_if_loop_completed_def py_mod_def py_floordiv_def)

lemma categorize_program_ok:
  assumes "loop_size r \<noteq> 0"
  shows "\<exists>b fs'. categorize_program env r fs name v = Inr (b, fs')"
  using assms
  by (auto simp: categorize_program_def loop_dir_for_program_def loop_index_for_program_def
      py_floordiv_def Let_def split: option.splits)

lemma cycle_ok:
  assumes "loop_size r \<noteq> 0"
  shows "\<exists>s'. cycle env r s = Inr s'"
proof -
  obtain g fs1 where g: "generate_p4_program env (files s) (program_name (program_count s)) = (g, fs1)"
    by (cases "generate_p4_program env (files s) (program_name (program_count s))")
  obtain b fs3 where c: "categorize_program env r fs1 (program_name (program_count s))
      (test_p4_program env fs1 (program_name (program_count s))) = Inr (b, fs3)"
    using categorize_program_ok [OF assms] by blast
  show ?thesis
    using g c measure_if_loop_completed_ok [OF assms]
    by (simp add: cycle_def Let_def)
qed

lemma cycle_cases:
  assumes "cycle env r s = Inr s'"
  obtains
    (skipped) fs1 where
      "generate_p4_program env (files s) (program_name (program_count s)) = (False, fs1)"
      "program_count s' = program_count s + 1"
      "last_measured_loop_index s' = last_measured_loop_index s"
      "files s' = fs1"
      "log s' = log s @ [Skipped (program_name (program_count s))]"
  | (error) fs1 where
      "generate_p4_program env (files s) (program_name (program_count s)) = (True, fs1)"
      "test_p4_program env fs1 (program_name (program_count s)) = Error"
      "program_count s' = program_count s + 1"
      "last_measured_loop_index s' = last_measured_loop_index s"
      "files s' = (if path_exists fs1 (p4_file_of (program_name (program_count s)))
                   then unlink fs1 (p4_file_of (program_name (program_count s))) else fs1)"
      "log s' = log s @ [ErrorTesting (program_name (program_count s))]"
  | (uncategorized) fs1 fs3 where
      "generate_p4_program env (files s) (program_name (program_count s)) = (True, fs1)"
      "test_p4_program env fs1 (program_name (program_count s)) \<noteq> Error"
      "categorize_program env r fs1 (program_name (program_count s))
         (test_p4_program env fs1 (program_name (program_count s))) = Inr (False, fs3)"
      "program_count s' = program_count s + 1"
      "last_measured_loop_index s' = last_measured_loop_index s"
      "files s' = fs3"
      "log s' = log s @ [FailedCategorize (program_name (program_count s))]"
  | (stored) fs1 fs3 where
      "generate_p4_program env (files s) (program_name (program_count s)) = (True, fs1)"
      "test_p4_program env fs1 (program_name (program_count s)) \<noteq> Error"
      "categorize_program env r fs1 (program_name (program_count s))
         (test_p4_program env fs1 (program_name (program_count s))) = Inr (True, fs3)"
      "measure_if_loop_completed env r
         (stored_state s fs3 (test_p4_program env fs1 (program_name (program_count s)))) = Inr s'"
proof -
  obtain g fs1 where g: "generate_p4_program env (files s) (program_name (program_count s)) = (g, fs1)"
    by (cases "generate_p4_program env (files s) (program_name (program_count s))")
  show ?thesis
  proof (cases g)
    case False
    with g assms have "s' = emit (Skipped (program_name (program_count s)))
        (s\<lparr>program_count := program_count s + 1, files := fs1\<rparr>)"
      by (simp add: cycle_def Let_def)
    then show ?thesis using skipped g False by simp
  next
    case True
    with g have gen:
      "generate_p4_program env (files s) (program_name (program_count s)) = (True, fs1)"
      by simp
    let ?n = "program_name (program_count s)"
    let ?v = "test_p4_program env fs1 ?n"
    show ?thesis
    proof (cases "?v = Error")
      case True
      with gen assms have "s' =
         (if path_exists fs1 (p4_file_of ?n)
          then (emit (ErrorTesting ?n) (s\<lparr>program_count := program_count s + 1, files := fs1\<rparr>))
                 \<lparr>files := unlink fs1 (p4_file_of ?n)\<rparr>
          else emit (ErrorTesting ?n) (s\<lparr>program_count := program_count s + 1, files := fs1\<rparr>))"
        by (auto simp: cycle_def Let_def)
      then show ?thesis using error [OF gen True] by (simp add: emit_def)
    next
      case False
      have "\<exists>b fs3. categorize_program env r fs1 ?n ?v = Inr (b, fs3)"
      proof (cases "categorize_program env r fs1 ?n ?v")
        case (Inl e)
        with assms gen False show ?thesis by (simp add: cycle_def Let_def)
      next
        case (Inr p)
        then show ?thesis by (cases p) simp
      qed
      then obtain b fs3 where
        c: "categorize_program env r fs1 ?n ?v = Inr (b, fs3)" by blast
      show ?thesis
      proof (cases b)
        case False
        with c have c': "categorize_program env r fs1 ?n ?v = Inr (False, fs3)" by simp
        with assms gen \<open>?v \<noteq> Error\<close> have
          "s' = emit (FailedCategorize ?n) (s\<lparr>program_count := program_count s + 1, files := fs3\<rparr>)"
          by (simp add: cycle_def Let_def)
        then show ?thesis using uncategorized [OF gen \<open>?v \<noteq> Error\<close> c'] by simp
      next
        case True
        have eq: "stored_state s fs3 ?v =
           (let st4 = emit (Processed ?n ?v) (s\<lparr>program_count := program_count s + 1, files := fs3\<rparr>)
            in if program_count st4 mod 10 = 0
               then emit (Summary (print_summary (files st4))) st4 else st4)"
          by (simp add: stored_state_def Let_def emit_def)
        from c True have c': "categorize_program env r fs1 ?n ?v = Inr (True, fs3)" by simp
        from assms gen \<open>?v \<noteq> Error\<close> c' have
          "measure_if_loop_completed env r (stored_state s fs3 ?v) = Inr s'"
          unfolding eq by (simp add: cycle_def Let_def)
        then show ?thesis using stored [OF gen \<open>?v \<noteq> Error\<close> c'] by simp
      qed
    qed
  qed
qed

lemma cycle_program_count:
  assumes "cycle env r s = Inr s'"
  shows "program_count s' = program_count s + 1"
  using assms
proof (cases rule: cycle_cases)
  case (stored fs1 fs3)
  then show ?thesis
    using measure_if_loop_completed_cases [OF stored(4)] by (auto simp: stored_state_def Let_def)
qed simp_all

subsection \<open>The loop and what follows it\<close>

lemma div_between:
  fixes a ls q :: int
  assumes "q * ls \<le> a" "a < (q + 1) * ls"
  shows "a div ls = q"
proof -
  have "a = ls * q + (a - q * ls)" by (simp add: algebra_simps)
  moreover have "0 \<le> a - q * ls" using assms(1) by simp
  moreover have "a - q * ls < ls" using assms(2) by (simp add: algebra_simps)
  ultimately show ?thesis by (rule int_div_pos_eq)
qed

lemma batch_arith_b:
  fixes pc ls lm :: int
  assumes "1 \<le> ls" "(lm + 1) * ls = pc"
  shows "(pc - 1) div ls = lm"
proof (rule div_between)
  show "lm * ls \<le> pc - 1" using assms by (simp add: algebra_simps)
  show "pc - 1 < (lm + 1) * ls" using assms by simp
qed

lemma batch_arith_a:
  fixes pc ls :: int
  assumes "1 \<le> ls" "pc mod ls = 0" "1 \<le> pc"
  shows "((pc - 1) div ls + 1) * ls = pc \<and> 0 \<le> (pc - 1) div ls"
proof -
  obtain q where q: "pc = ls * q" using assms(2) by (auto simp: zmod_eq_0_iff)
  have "1 \<le> q"
  proof (rule ccontr)
    assume "\<not> 1 \<le> q"
    then have "q \<le> 0" by simp
    then have "ls * q \<le> 0" using assms(1) by (simp add: mult_nonneg_nonpos)
    then show False using q assms(3) by simp
  qed
  have "(pc - 1) div ls = q - 1"
    by (rule batch_arith_b [OF assms(1)]) (simp add: q algebra_simps)
  then show ?thesis using q \<open>1 \<le> q\<close> by (simp add: algebra_simps)
qed

lemma batch_arith_c:
  fixes pc ls lm :: int
  assumes "1 \<le> ls" "(lm + 1) * ls < pc"
  shows "(pc - 1) div ls \<noteq> lm"
proof -
  have "(lm + 1) * ls \<le> pc - 1" using assms(2) by simp
  moreover have "0 < ls" using assms(1) by simp
  ultimately have "((lm + 1) * ls) div ls \<le> (pc - 1) div ls"
    by (rule zdiv_mono1)
  moreover have "((lm + 1) * ls) div ls = lm + 1" using assms(1) by simp
  ultimately show ?thesis by simp
qed

lemma batch_arith_d:
  fixes pc ls :: int
  assumes "1 \<le> ls" "1 \<le> pc"
  shows "(pc - 1) div ls \<noteq> - 1"
proof -
  have "0 \<le> (pc - 1) div ls" using assms by (simp add: pos_imp_zdiv_nonneg_iff)
  then show ?thesis by simp
qed

lemma ends_with_measure_snoc [simp]:
  "ends_with_measure (lg @ [e]) = (case e of MeasureCoverage l \<Rightarrow> True | _ \<Rightarrow> False)"
  by (simp add: ends_with_measure_def split: event.splits)

lemma ends_with_measure_Nil [simp]: "\<not> ends_with_measure []"
  by (simp add: ends_with_measure_def)

lemma measure_inv_initial: "measure_inv r (initial_state fs)"
  by (simp add: measure_inv_def initial_state_def)

lemma measure_inv_weaken:
  assumes "measure_inv r s" "1 \<le> loop_size r"
  shows "last_measured_loop_index s = - 1
         \<or> (0 \<le> last_measured_loop_index s
             \<and> (last_measured_loop_index s + 1) * loop_size r < program_count s + 1)"
  using assms by (auto simp: measure_inv_def split: if_splits)

lemma measure_inv_cycle:
  assumes ls: "1 \<le> loop_size r" and inv: "measure_inv r s" and c: "cycle env r s = Inr s'"
  shows "measure_inv r s'"
  using c
proof (cases rule: cycle_cases)
  case (skipped fs1)
  then show ?thesis using measure_inv_weaken [OF inv ls] inv by (simp add: measure_inv_def)
next
  case (error fs1)
  then show ?thesis using measure_inv_weaken [OF inv ls] inv by (simp add: measure_inv_def)
next
  case (uncategorized fs1 fs3)
  then show ?thesis using measure_inv_weaken [OF inv ls] inv by (simp add: measure_inv_def)
next
  case (stored fs1 fs3)
  let ?t = "stored_state s fs3 (test_p4_program env fs1 (program_name (program_count s)))"
  have pc: "program_count ?t = program_count s + 1"
    and lm: "last_measured_loop_index ?t = last_measured_loop_index s"
    and nm: "\<not> ends_with_measure (log ?t)"
    by (simp_all add: stored_state_def Let_def ends_with_measure_def)
  have pos: "0 \<le> program_count s" using inv by (simp add: measure_inv_def)
  from measure_if_loop_completed_cases [OF stored(4)]
  consider
    (m) "program_count ?t mod loop_size r = 0"
        "program_count s' = program_count ?t"
        "last_measured_loop_index s' = (program_count ?t - 1) div loop_size r"
        "log s' = log ?t @ [MeasureCoverage ((program_count ?t - 1) div loop_size r)]"
  | (n) "s' = ?t"
    by blast
  then show ?thesis
  proof cases
    case m
    have "((program_count ?t - 1) div loop_size r + 1) * loop_size r = program_count ?t
          \<and> 0 \<le> (program_count ?t - 1) div loop_size r"
      by (rule batch_arith_a [OF ls m(1)]) (use pc pos in simp)
    then show ?thesis using m pc pos by (simp add: measure_inv_def)
  next
    case n
    then show ?thesis
      using measure_inv_weaken [OF inv ls] pc lm nm pos by (simp add: measure_inv_def)
  qed
qed

lemma run_loop_invariant:
  assumes "run_loop env r duration count fuel s = Some (Inr s')"
    and "P s"
    and "\<And>a b. P a \<Longrightarrow> \<not> duration_reached env duration a \<Longrightarrow> \<not> count_reached count a
            \<Longrightarrow> cycle env r a = Inr b \<Longrightarrow> P b"
  shows "\<exists>t e. P t \<and> s' = emit e t \<and>
           ((e = DurationReached \<and> duration_reached env duration t)
            \<or> (e = CountReached \<and> count_reached count t))"
  using assms(1,2)
proof (induction fuel arbitrary: s)
  case 0
  then show ?case by simp
next
  case (Suc fuel)
  show ?case
  proof (cases "duration_reached env duration s")
    case True
    with Suc.prems show ?thesis by auto
  next
    case nd: False
    show ?thesis
    proof (cases "count_reached count s")
      case True
      with nd Suc.prems show ?thesis by auto
    next
      case False
      with nd Suc.prems obtain s1 where
        c: "cycle env r s = Inr s1" and
        rest: "run_loop env r duration count fuel s1 = Some (Inr s')"
        by (auto split: sum.splits)
      from assms(3) [OF Suc.prems(2) nd False c] have "P s1" .
      from Suc.IH [OF rest this] show ?thesis .
    qed
  qed
qed

text \<open>C9: after the loop, coverage is measured once more exactly when at least one index
  was processed and the last cycle did not measure; the loop measured is the one of the
  last index, and the files at the end are those that \<open>measure_loop_coverage\<close> makes of
  the files the loop left for that loop index (in the other case they are the files the
  loop left). With loop size 5 and thirteen stored programs this gives the measurements
  of loops 0 and 1 at their boundaries and the one of loop 2 after the loop.\<close>

theorem finishing_measures_partial_batch:
  assumes deps: "check_dependencies env"
    and ls: "1 \<le> loop_size r"
    and run: "run_gauntlet env r duration count fuel fs = Some res"
  shows "\<exists>st st'. run_loop env r duration count fuel (initial_state fs) = Some (Inr st)
           \<and> res = Inr st'
           \<and> log st' = log st @ GauntletCompleted (program_count st) #
               (if 0 < program_count st \<and> \<not> last_cycle_measured (log st)
                then [MeasureCoverage ((program_count st - 1) div loop_size r)] else [])
               @ [Summary (print_summary (files st'))]
           \<and> files st' =
               (if 0 < program_count st \<and> \<not> last_cycle_measured (log st)
                then measure_loop_coverage env (files st)
                       ((program_count st - 1) div loop_size r)
                else files st)"
proof -
  have "\<exists>st. run_loop env r duration count fuel (initial_state fs) = Some (Inr st)"
  proof (cases "run_loop env r duration count fuel (initial_state fs)")
    case None
    with run deps show ?thesis by (simp add: run_gauntlet_def)
  next
    case (Some x)
    show ?thesis
    proof (cases x)
      case (Inl e)
      have "cycle env r a \<noteq> Inl e'" for a e'
        using cycle_ok [of r env a] ls by auto
      then have "run_loop env r duration count k a \<noteq> Some (Inl e')" for k a e'
        by (induction k arbitrary: a) (auto split: sum.splits)
      with Some Inl show ?thesis by simp
    next
      case (Inr st)
      with Some show ?thesis by simp
    qed
  qed
  then obtain st where st: "run_loop env r duration count fuel (initial_state fs) = Some (Inr st)"
    by blast
  from run_loop_invariant [where P = "measure_inv r", OF st measure_inv_initial]
    measure_inv_cycle [OF ls]
  obtain t e where inv: "measure_inv r t" and e: "st = emit e t"
    by blast
  have lcm: "last_cycle_measured (log st) = ends_with_measure (log t)"
    by (simp add: last_cycle_measured_def e)
  have pc: "program_count st = program_count t"
    and lm: "last_measured_loop_index st = last_measured_loop_index t"
    by (simp_all add: e)
  have res: "res = finishing env r st"
    using run deps st by (simp add: run_gauntlet_def)
  have key: "(program_count st - 1) div loop_size r \<noteq> last_measured_loop_index st
               \<longleftrightarrow> \<not> last_cycle_measured (log st)"
    if "0 < program_count st"
  proof (cases "ends_with_measure (log t)")
    case True
    then have "(last_measured_loop_index t + 1) * loop_size r = program_count t"
      using inv by (simp add: measure_inv_def)
    from batch_arith_b [OF ls this] show ?thesis
      using True by (simp add: lcm pc lm)
  next
    case False
    then consider "last_measured_loop_index t = - 1"
      | "(last_measured_loop_index t + 1) * loop_size r < program_count t"
      using inv by (auto simp: measure_inv_def)
    then have "(program_count t - 1) div loop_size r \<noteq> last_measured_loop_index t"
    proof cases
      case 1
      then show ?thesis using batch_arith_d [OF ls, of "program_count t"] that pc by simp
    next
      case 2
      then show ?thesis by (rule batch_arith_c [OF ls])
    qed
    then show ?thesis using False by (simp add: lcm pc lm)
  qed
  have ls0: "loop_size r \<noteq> 0" using ls by simp
  show ?thesis
  proof (cases "0 < program_count st")
    case True
    show ?thesis
      using st res key [OF True] True ls0
      by (cases "last_cycle_measured (log st)")
         (auto simp: finishing_def Let_def py_floordiv_def)
  next
    case False
    then show ?thesis
      using st res by (auto simp: finishing_def Let_def)
  qed
qed

subsection \<open>Files and the summary\<close>

lemma finite_file_paths [simp]: "finite (file_paths fs)"
  by (simp add: file_paths_def)

lemma file_paths_update: "file_paths (AList.update k v fs) = insert k (file_paths fs)"
  by (simp add: file_paths_def dom_update)

lemma file_paths_delete: "file_paths (AList.delete k fs) \<subseteq> file_paths fs"
  unfolding file_paths_def by (rule dom_delete_subset)

lemma file_paths_unlink: "file_paths (unlink fs p) \<subseteq> file_paths fs"
  by (simp add: unlink_def file_paths_delete)

lemma file_paths_move_file: "file_paths (move_file fs src dst) \<subseteq> insert dst (file_paths fs)"
  using file_paths_delete [of src fs]
  by (auto simp: move_file_def file_paths_update split: option.splits)

lemma file_paths_generate:
  assumes "generate_p4_program env fs name = (g, fs1)"
  shows "file_paths fs1 \<subseteq> insert (p4_file_of name) (file_paths fs)"
proof -
  obtain res w where p: "p4smith env name = (res, w)" by (cases "p4smith env name")
  have "fs1 = fs \<or> fs1 = AList.update (p4_file_of name) Program fs"
    using assms p
    by (auto simp: generate_p4_program_def Let_def split: if_splits proc_result.splits)
  then show ?thesis by (auto simp: file_paths_update)
qed

lemma generate_p4_program_cases:
  assumes "generate_p4_program env fs name = (g, fs1)"
  shows "(fs1 = fs \<or> (\<exists>v. fs1 = AList.update (p4_file_of name) v fs))
         \<and> (g \<longrightarrow> path_exists fs1 (p4_file_of name))"
proof -
  obtain res w where p: "p4smith env name = (res, w)" by (cases "p4smith env name")
  show ?thesis
    using assms p
    by (auto simp: generate_p4_program_def Let_def split: if_splits proc_result.splits)
qed






lemma file_paths_measure:
  "file_paths (measure_loop_coverage env fs l) \<subseteq> insert (cov_file_of l) (file_paths fs)"
proof -
  obtain res w where p: "cover_dangling env fs (loop_name l) = (res, w)"
    by (cases "cover_dangling env fs (loop_name l)")
  define fs1 where "fs1 = (case w of None \<Rightarrow> fs
     | Some items \<Rightarrow> AList.update (cov_file_of l) (Coverage items) fs)"
  have k1: "file_paths fs1 \<subseteq> insert (cov_file_of l) (file_paths fs)"
    by (auto simp: fs1_def file_paths_update split: option.splits)
  have "measure_loop_coverage env fs l = fs \<or> measure_loop_coverage env fs l = fs1
     \<or> (\<exists>items. measure_loop_coverage env fs l = write_coverage fs1 (cov_file_of l) items)"
    using p unfolding measure_loop_coverage_def Let_def fs1_def
    by (auto split: proc_result.splits option.splits)
  then show ?thesis
    using k1 by (auto simp: write_coverage_def file_paths_update)
qed

lemma categorize_program_cases:
  assumes "categorize_program env r fs name v = Inr (b, fs3)"
  shows "(\<not> b \<and> fs3 = fs)
       \<or> (b \<and> fs3 = move_file fs (p4_file_of name) (dest_path r name v)
            \<and> length (dest_path r name v) = 4
            \<and> last (dest_path r name v) = name @ ''.p4'')"
  using assms
  by (auto simp: categorize_program_def dest_path_def Let_def loop_dir_for_program_def
      gauntlet_dir_def split: if_splits sum.splits option.splits)



lemma distinct_glob_children [simp]: "distinct (glob_children fs dir pat)"
  by (simp add: glob_children_def)





lemma finite_stored_paths [simp]: "finite (stored_paths fs)"
  by (simp add: stored_paths_def)


subsection \<open>Invariants of the loop\<close>

lemma outcomes_append [simp]: "outcomes (a @ b) = outcomes a @ outcomes b"
  by (simp add: outcomes_def)

lemma unrecognised_test_p4_program:
  assumes "oracle_unrecognised env name"
  shows "test_p4_program env fs name = Error"
  using assms
  by (auto simp: oracle_unrecognised_def test_p4_program_def split: proc_result.splits)

lemma cycle_log:
  assumes "cycle env r s = Inr s'"
  shows "\<exists>e extra. log s' = log s @ e # extra
           \<and> outcome_ok env (program_name (program_count s)) e
           \<and> outcomes extra = []
           \<and> (\<forall>n v. Processed n v \<notin> set extra)"
  using assms
proof (cases rule: cycle_cases)
  case (skipped fs1)
  then show ?thesis by (simp add: outcomes_def outcome_ok_def)
next
  case (error fs1)
  then show ?thesis
    by (auto simp: outcomes_def outcome_ok_def)
next
  case (uncategorized fs1 fs3)
  then show ?thesis
    using unrecognised_test_p4_program [of env "program_name (program_count s)" fs1]
    by (auto simp: outcomes_def outcome_ok_def)
next
  case (stored fs1 fs3)
  let ?n = "program_name (program_count s)"
  let ?v = "test_p4_program env fs1 ?n"
  let ?t = "stored_state s fs3 ?v"
  obtain x1 where x1: "log ?t = log s @ Processed ?n ?v # x1"
    "outcomes x1 = []" "\<forall>n v. Processed n v \<notin> set x1"
    by (simp add: stored_state_def Let_def outcomes_def)
  from measure_if_loop_completed_cases [OF stored(4)]
  obtain x2 where x2: "log s' = log ?t @ x2" "outcomes x2 = []" "\<forall>n v. Processed n v \<notin> set x2"
    by (auto simp: outcomes_def)
  have "log s' = log s @ Processed ?n ?v # (x1 @ x2)"
    using x1 x2 by simp
  moreover have "outcomes (x1 @ x2) = []" using x1 x2 by simp
  moreover have "\<forall>n v. Processed n v \<notin> set (x1 @ x2)" using x1 x2 by simp
  moreover have "\<not> oracle_unrecognised env ?n"
    using unrecognised_test_p4_program [of env ?n fs1] stored(2) by auto
  ultimately show ?thesis
    by (intro exI [where x = "Processed ?n ?v"] exI [where x = "x1 @ x2"])
       (simp add: outcome_ok_def)
qed

lemma log_inv_cycle:
  assumes inv: "log_inv env s" and c: "cycle env r s = Inr s'"
  shows "log_inv env s'"
proof -
  from cycle_log [OF c] obtain e extra where
    lg: "log s' = log s @ e # extra" and
    ok: "outcome_ok env (program_name (program_count s)) e" and
    ex: "outcomes extra = []"
    by blast
  have nm: "outcome_name e \<noteq> None" using ok by (simp add: outcome_ok_def)
  have pc: "program_count s' = program_count s + 1" using c by (rule cycle_program_count)
  have pos: "0 \<le> program_count s" and len: "length (outcomes (log s)) = nat (program_count s)"
    using inv by (simp_all add: log_inv_def)
  have oc: "outcomes (log s') = outcomes (log s) @ [e]"
    using lg nm ex by (simp add: outcomes_def)
  have n1: "nat (program_count s + 1) = Suc (nat (program_count s))" using pos by simp
  have ipc: "int (nat (program_count s)) = program_count s" using pos by simp
  have old: "outcome_ok env (program_name (int j)) (outcomes (log s) ! j)"
    if "j < nat (program_count s)" for j
    using inv that by (simp add: log_inv_def)
  have each: "outcome_ok env (program_name (int j)) ((outcomes (log s) @ [e]) ! j)"
    if "j < Suc (nat (program_count s))" for j
  proof (cases "j < nat (program_count s)")
    case True
    then show ?thesis using old [OF True] len by (simp add: nth_append)
  next
    case False
    with that have "j = nat (program_count s)" by simp
    then show ?thesis using len ok ipc by (simp add: nth_append)
  qed
  have "0 \<le> program_count s + 1" using pos by simp
  moreover have "length (outcomes (log s) @ [e]) = Suc (nat (program_count s))"
    using len by simp
  ultimately show ?thesis
    unfolding log_inv_def pc oc n1 using each by blast
qed

lemma files_inv_step:
  assumes "files_inv r s"
    and "file_paths (files s') \<subseteq> file_paths (files s) \<union> A"
    and "set (log s) \<subseteq> set (log s')"
    and "\<And>p. p \<in> A \<Longrightarrow> take 1 p = gauntlet_dir \<Longrightarrow> length p \<noteq> 2
           \<Longrightarrow> \<exists>n v. Processed n v \<in> set (log s') \<and> p = dest_path r n v"
  shows "files_inv r s'"
  unfolding files_inv_def
proof (intro ballI impI)
  fix p assume p: "p \<in> file_paths (files s')" and g: "take 1 p = gauntlet_dir \<and> length p \<noteq> 2"
  from p assms(2) consider "p \<in> file_paths (files s)" | "p \<in> A" by blast
  then show "\<exists>n v. Processed n v \<in> set (log s') \<and> p = dest_path r n v"
  proof cases
    case 1
    with assms(1) g obtain n v where "Processed n v \<in> set (log s)" "p = dest_path r n v"
      unfolding files_inv_def by blast
    with assms(3) show ?thesis by blast
  next
    case 2
    with assms(4) g show ?thesis by blast
  qed
qed

lemma staging_not_gauntlet: "take 1 (p4_file_of name) \<noteq> gauntlet_dir"
  by (simp add: p4_file_of_def p4c_build_dir_def gauntlet_dir_def)

lemma length_cov_file: "length (cov_file_of l) = 2"
  by (simp add: cov_file_of_def gauntlet_dir_def)

lemma files_inv_cycle:
  assumes inv: "files_inv r s" and c: "cycle env r s = Inr s'"
  shows "files_inv r s'"
  using c
proof (cases rule: cycle_cases)
  case (skipped fs1)
  show ?thesis
  proof (rule files_inv_step [OF inv, where A = "{p4_file_of (program_name (program_count s))}"])
    show "file_paths (files s') \<subseteq> file_paths (files s) \<union> {p4_file_of (program_name (program_count s))}"
      using file_paths_generate [OF skipped(1)] skipped(4) by auto
    show "set (log s) \<subseteq> set (log s')" using skipped by auto
  qed (use staging_not_gauntlet in auto)
next
  case (error fs1)
  show ?thesis
  proof (rule files_inv_step [OF inv, where A = "{p4_file_of (program_name (program_count s))}"])
    show "file_paths (files s') \<subseteq> file_paths (files s) \<union> {p4_file_of (program_name (program_count s))}"
      using file_paths_generate [OF error(1)] error(5)
        file_paths_unlink [of fs1 "p4_file_of (program_name (program_count s))"]
      by (auto split: if_splits)
    show "set (log s) \<subseteq> set (log s')" using error by auto
  qed (use staging_not_gauntlet in auto)
next
  case (uncategorized fs1 fs3)
  from categorize_program_cases [OF uncategorized(3)] have "fs3 = fs1" by simp
  show ?thesis
  proof (rule files_inv_step [OF inv, where A = "{p4_file_of (program_name (program_count s))}"])
    show "file_paths (files s') \<subseteq> file_paths (files s) \<union> {p4_file_of (program_name (program_count s))}"
      using file_paths_generate [OF uncategorized(1)] uncategorized(6) \<open>fs3 = fs1\<close> by auto
    show "set (log s) \<subseteq> set (log s')" using uncategorized by auto
  qed (use staging_not_gauntlet in auto)
next
  case (stored fs1 fs3)
  let ?n = "program_name (program_count s)"
  let ?v = "test_p4_program env fs1 ?n"
  let ?t = "stored_state s fs3 ?v"
  from categorize_program_cases [OF stored(3)]
  have fs3: "fs3 = move_file fs1 (p4_file_of ?n) (dest_path r ?n ?v)" by simp
  have k3: "file_paths fs3 \<subseteq> file_paths (files s) \<union> {p4_file_of ?n, dest_path r ?n ?v}"
    using file_paths_generate [OF stored(1)] file_paths_move_file [of fs1 "p4_file_of ?n" "dest_path r ?n ?v"]
    unfolding fs3 by auto
  have lt: "Processed ?n ?v \<in> set (log ?t)" "set (log s) \<subseteq> set (log ?t)" "files ?t = fs3"
    by (auto simp: stored_state_def Let_def)
  from measure_if_loop_completed_cases [OF stored(4)]
  have ls': "set (log ?t) \<subseteq> set (log s')"
    and fs': "files s' = files ?t \<or> (\<exists>l. files s' = measure_loop_coverage env (files ?t) l)"
    by auto
  have "\<exists>l. file_paths (files s')
      \<subseteq> file_paths (files s) \<union> {p4_file_of ?n, dest_path r ?n ?v, cov_file_of l}"
  proof (cases "files s' = files ?t")
    case True
    then show ?thesis using k3 lt(3) by auto
  next
    case False
    with fs' obtain l where "files s' = measure_loop_coverage env fs3 l"
      using lt(3) by auto
    then have "file_paths (files s') \<subseteq> insert (cov_file_of l) (file_paths fs3)"
      using file_paths_measure [of env fs3 l] by simp
    then have "file_paths (files s')
      \<subseteq> file_paths (files s) \<union> {p4_file_of ?n, dest_path r ?n ?v, cov_file_of l}"
      using k3 by auto
    then show ?thesis by blast
  qed
  then obtain l where
    k': "file_paths (files s') \<subseteq> file_paths (files s) \<union> {p4_file_of ?n, dest_path r ?n ?v, cov_file_of l}"
    by blast
  show ?thesis
  proof (rule files_inv_step [OF inv k'])
    show "set (log s) \<subseteq> set (log s')" using lt ls' by blast
  next
    fix p assume "p \<in> {p4_file_of ?n, dest_path r ?n ?v, cov_file_of l}"
      and "take 1 p = gauntlet_dir" and "length p \<noteq> 2"
    then have "p = dest_path r ?n ?v"
      using staging_not_gauntlet [of ?n] length_cov_file [of l] by auto
    then show "\<exists>n v. Processed n v \<in> set (log s') \<and> p = dest_path r n v"
      using lt(1) ls' by blast
  qed
qed

subsection \<open>A failed generation\<close>



lemma finishing_effect:
  assumes "loop_size r \<noteq> 0"
  shows "\<exists>st'. finishing env r st = Inr st'
           \<and> program_count st' = program_count st
           \<and> (\<exists>extra. log st' = log st @ extra \<and> outcomes extra = []
                  \<and> (\<forall>n v. Processed n v \<notin> set extra))
           \<and> (\<exists>l. file_paths (files st') \<subseteq> insert (cov_file_of l) (file_paths (files st)))"
proof -
  let ?l = "(program_count st - 1) div loop_size r"
  have k: "file_paths (measure_loop_coverage env (files st) ?l)
             \<subseteq> insert (cov_file_of ?l) (file_paths (files st))"
    by (rule file_paths_measure)
  show ?thesis
    using assms k
    by (auto simp: finishing_def Let_def py_floordiv_def outcomes_def intro!: exI [where x = ?l])
qed



lemma path_exists_file_paths: "path_exists fs p \<longleftrightarrow> p \<in> file_paths fs"
  by (simp add: path_exists_def file_paths_def map_of_eq_None_iff)

lemma dest_path_last:
  assumes "dest_path r n v = d @ [l, b, f]"
  shows "f = n @ ''.p4''"
  using assms
  by (auto simp: dest_path_def loop_dir_for_program_def gauntlet_dir_def
      split: sum.splits option.splits)













subsection \<open>An unrecognised oracle output\<close>

lemma glob_children_update:
  assumes "take (length dir) k \<noteq> dir"
  shows "glob_children (AList.update k v fs) dir pat = glob_children fs dir pat"
  using assms by (simp add: glob_children_def update_keys)

lemma glob_children_delete:
  assumes "take (length dir) k \<noteq> dir"
  shows "glob_children (AList.delete k fs) dir pat = glob_children fs dir pat"
proof -
  have "filter P (removeAll k xs) = filter P xs" if "\<not> P k" for P and xs :: "path list"
    using that by (induction xs) auto
  then show ?thesis
    using assms by (simp add: glob_children_def delete_keys)
qed

lemma staging_not_below:
  "take (length (gauntlet_dir @ xs)) (p4_file_of name) \<noteq> gauntlet_dir @ xs"
  by (simp add: gauntlet_dir_def p4_file_of_def p4c_build_dir_def)

lemma glob_children_staging_update:
  "glob_children (AList.update (p4_file_of name) v fs) (gauntlet_dir @ xs) pat
     = glob_children fs (gauntlet_dir @ xs) pat"
  by (rule glob_children_update) (rule staging_not_below)

lemma glob_children_staging_delete:
  "glob_children (AList.delete (p4_file_of name) fs) (gauntlet_dir @ xs) pat
     = glob_children fs (gauntlet_dir @ xs) pat"
  by (rule glob_children_delete) (rule staging_not_below)

lemma count_bucket_staging_update:
  "count_bucket (AList.update (p4_file_of name) v fs) bucket = count_bucket fs bucket"
  unfolding count_bucket_def
  using glob_children_staging_update [of name v fs "[]"]
  by (simp only: glob_children_staging_update append_Nil2)

lemma count_bucket_staging_delete:
  "count_bucket (AList.delete (p4_file_of name) fs) bucket = count_bucket fs bucket"
  unfolding count_bucket_def
  using glob_children_staging_delete [of name fs "[]"]
  by (simp only: glob_children_staging_delete append_Nil2)

lemma print_summary_staging_update:
  "print_summary (AList.update (p4_file_of name) v fs) = print_summary fs"
  by (simp only: print_summary_def count_bucket_staging_update)

lemma print_summary_staging_delete:
  "print_summary (AList.delete (p4_file_of name) fs) = print_summary fs"
  by (simp only: print_summary_def count_bucket_staging_delete)

lemma unrecognised_cycle:
  assumes gen: "generate_p4_program env (files s) (program_name (program_count s)) = (True, fs1)"
    and ws: "watsup_files env \<noteq> []"
    and run: "p4spectec env (program_name (program_count s)) = Completed rc out err"
    and nokw: "\<not> occurs_ci ''well-typed'' (out @ err)" "\<not> occurs_ci ''ill-typed'' (out @ err)"
              "\<not> occurs_ci ''ill-formed'' (out @ err)"
  shows "test_p4_program env fs1 (program_name (program_count s)) = Error
       \<and> (\<exists>s'. cycle env r s = Inr s'
             \<and> program_count s' = program_count s + 1
             \<and> log s' = log s @ [ErrorTesting (program_name (program_count s))]
             \<and> files s' = unlink fs1 (p4_file_of (program_name (program_count s)))
             \<and> \<not> path_exists (files s') (p4_file_of (program_name (program_count s)))
             \<and> (\<forall>p. take 1 p = gauntlet_dir \<longrightarrow> map_of (files s') p = map_of (files s) p)
             \<and> print_summary (files s') = print_summary (files s))"
proof -
  let ?n = "program_name (program_count s)"
  let ?tmp = "p4_file_of ?n"
  from generate_p4_program_cases [OF gen]
  have ex: "path_exists fs1 ?tmp"
    and fs1: "fs1 = files s \<or> (\<exists>v. fs1 = AList.update ?tmp v (files s))"
    by simp_all
  have cl: "classify out err = Error"
    using nokw by (simp add: classify_def occurs_ci_iff lower_keywords del: contains.simps)
  have v: "test_p4_program env fs1 ?n = Error"
    using ex ws run cl by (simp add: test_p4_program_def)
  define s' where "s' = (emit (ErrorTesting ?n) (s\<lparr>program_count := program_count s + 1,
      files := fs1\<rparr>))\<lparr>files := unlink fs1 ?tmp\<rparr>"
  have c: "cycle env r s = Inr s'"
    using gen v ex by (simp add: cycle_def Let_def s'_def)
  have gone: "\<not> path_exists (files s') ?tmp"
    by (simp add: s'_def path_exists_def unlink_def delete_conv')
  have same: "map_of (files s') p = map_of (files s) p" if "take 1 p = gauntlet_dir" for p
  proof -
    have ne: "p \<noteq> ?tmp" using that staging_not_gauntlet [of ?n] by auto
    then have "map_of fs1 p = map_of (files s) p"
      using fs1 by (auto simp: update_conv')
    then show ?thesis using ne by (simp add: s'_def unlink_def delete_conv')
  qed
  have "print_summary fs1 = print_summary (files s)"
    using fs1 by (auto simp: print_summary_staging_update)
  then have ps: "print_summary (files s') = print_summary (files s)"
    by (simp add: s'_def unlink_def print_summary_staging_delete)
  show ?thesis
    using v c gone same ps by (auto simp: s'_def)
qed

lemma run_gauntlet_invariants:
  assumes fresh: "\<forall>p\<in>file_paths fs. take 1 p \<noteq> gauntlet_dir"
    and ls: "1 \<le> loop_size r"
    and run: "run_gauntlet env r duration count fuel fs = Some (Inr st)"
  shows "log_inv env st \<and> files_inv r st"
proof -
  let ?P = "\<lambda>t. log_inv env t \<and> files_inv r t"
  have P0: "?P (initial_state fs)"
    using fresh by (simp add: initial_state_def log_inv_def files_inv_def outcomes_def)
  show ?thesis
  proof (cases "check_dependencies env")
    case False
    with run have "st = emit DependencyCheckFailed (initial_state fs)"
      by (simp add: run_gauntlet_def)
    then show ?thesis
      using P0 by (simp add: log_inv_def files_inv_def outcomes_def)
  next
    case True
    from ls have ls0: "loop_size r \<noteq> 0" by simp
    from run True obtain s1 where
      s1: "run_loop env r duration count fuel (initial_state fs) = Some (Inr s1)" and
      fin: "finishing env r s1 = Inr st"
      by (auto simp: run_gauntlet_def split: option.splits sum.splits)
    have step: "?P b" if "?P a" "cycle env r a = Inr b" for a b
      using that log_inv_cycle [OF _ that(2)] files_inv_cycle [OF _ that(2)] by blast
    from run_loop_invariant [where P = ?P, OF s1 P0] step
    obtain t e where t: "?P t" and e: "s1 = emit e t"
      and stop: "e = DurationReached \<or> e = CountReached"
      by blast
    from finishing_effect [OF ls0, of env s1] fin obtain extra l where
      pcs: "program_count st = program_count s1" and
      lg: "log st = log s1 @ extra" and
      ex: "outcomes extra = []" and
      fp: "file_paths (files st) \<subseteq> insert (cov_file_of l) (file_paths (files s1))"
      by auto
    have oc: "outcomes (log st) = outcomes (log t)"
      using lg ex e stop by (auto simp: outcomes_def)
    have pc: "program_count st = program_count t" using pcs e by simp
    have "log_inv env st"
      using t unfolding log_inv_def oc pc by simp
    moreover have "files_inv r st"
    proof (rule files_inv_step [where s = t and A = "{cov_file_of l}"])
      show "files_inv r t" using t by simp
      show "file_paths (files st) \<subseteq> file_paths (files t) \<union> {cov_file_of l}"
        using fp e by auto
      show "set (log t) \<subseteq> set (log st)" using lg e by auto
    qed (use length_cov_file in auto)
    ultimately show ?thesis by simp
  qed
qed

lemma not_stored_unless_processed:
  assumes linv: "log_inv env st" and finv: "files_inv r st"
    and j: "0 \<le> j" "j < program_count st"
    and np: "\<not> is_processed (outcomes (log st) ! nat j)"
  shows "\<not> path_exists (files st) (gauntlet_dir @ [l, b, program_name j @ ''.p4''])"
proof
  let ?p = "gauntlet_dir @ [l, b, program_name j @ ''.p4'']"
  assume "path_exists (files st) ?p"
  then have "?p \<in> file_paths (files st)" by (simp add: path_exists_file_paths)
  moreover have "take 1 ?p = gauntlet_dir \<and> length ?p \<noteq> 2" by (simp add: gauntlet_dir_def)
  ultimately obtain n v where n: "Processed n v \<in> set (log st)" "?p = dest_path r n v"
    using finv unfolding files_inv_def by blast
  from dest_path_last [OF n(2) [symmetric]] have nj: "n = program_name j" by simp
  from n(1) have "Processed n v \<in> set (outcomes (log st))" by (simp add: outcomes_def)
  then obtain i where i: "i < nat (program_count st)" "outcomes (log st) ! i = Processed n v"
    using linv by (auto simp: in_set_conv_nth log_inv_def)
  have "outcome_ok env (program_name (int i)) (outcomes (log st) ! i)"
    using linv i(1) by (simp add: log_inv_def)
  then have "n = program_name (int i)" using i(2) by (simp add: outcome_ok_def)
  then have "program_name (int i) = program_name j" using nj by simp
  then have "int i = j" using program_name_inj [of "int i" j] j(1) by simp
  then have "i = nat j" by simp
  then show False using i(2) np by simp
qed

text \<open>C8: in a run from a fresh gauntlet directory, take an index whose oracle run ends
  with an output in which none of the three keywords occurs. Its verdict is Error; the
  outcome logged for it is "error" (or "skipped", when generation failed and the oracle
  was not run); at the end of the run no verdict directory of any loop holds a file for
  it. In its cycle the staged file is deleted, no file below the gauntlet directory is
  created or changed, and the counts of the summary stay as they were.\<close>

theorem unrecognised_output_is_discarded:
  assumes fresh: "\<forall>p\<in>file_paths fs. take 1 p \<noteq> gauntlet_dir"
    and ls: "1 \<le> loop_size r"
    and run: "run_gauntlet env r duration count fuel fs = Some (Inr st)"
    and j0: "0 \<le> j" and jc: "j < program_count st"
    and ws: "watsup_files env \<noteq> []"
    and out: "p4spectec env (program_name j) = Completed rc out err"
    and nokw: "\<not> occurs_ci ''well-typed'' (out @ err)" "\<not> occurs_ci ''ill-typed'' (out @ err)"
              "\<not> occurs_ci ''ill-formed'' (out @ err)"
  shows "classify out err = Error
       \<and> (outcomes (log st) ! nat j = ErrorTesting (program_name j)
            \<or> outcomes (log st) ! nat j = Skipped (program_name j))
       \<and> (\<forall>l b. \<not> path_exists (files st) (gauntlet_dir @ [l, b, program_name j @ ''.p4'']))
       \<and> (\<forall>s fs1. program_count s = j
              \<and> generate_p4_program env (files s) (program_name j) = (True, fs1) \<longrightarrow>
              test_p4_program env fs1 (program_name j) = Error
              \<and> (\<exists>s'. cycle env r s = Inr s'
                    \<and> log s' = log s @ [ErrorTesting (program_name j)]
                    \<and> files s' = unlink fs1 (p4_file_of (program_name j))
                    \<and> \<not> path_exists (files s') (p4_file_of (program_name j))
                    \<and> (\<forall>p. take 1 p = gauntlet_dir
                           \<longrightarrow> map_of (files s') p = map_of (files s) p)
                    \<and> print_summary (files s') = print_summary (files s)))"
proof -
  have cl: "classify out err = Error"
    using nokw by (simp add: classify_def occurs_ci_iff lower_keywords del: contains.simps)
  then have un: "oracle_unrecognised env (program_name j)"
    using out by (simp add: oracle_unrecognised_def)
  from run_gauntlet_invariants [OF fresh ls run]
  have linv: "log_inv env st" and finv: "files_inv r st" by simp_all
  have jn: "nat j < nat (program_count st)" "int (nat j) = j" using j0 jc by simp_all
  have "\<forall>i<nat (program_count st).
          outcome_ok env (program_name (int i)) (outcomes (log st) ! i)"
    using linv by (simp add: log_inv_def)
  then have "outcome_ok env (program_name (int (nat j))) (outcomes (log st) ! nat j)"
    using jn(1) by blast
  then have oc: "outcomes (log st) ! nat j = ErrorTesting (program_name j)
            \<or> outcomes (log st) ! nat j = Skipped (program_name j)"
    using un unfolding jn(2) by (auto simp: outcome_ok_def)
  then have np: "\<not> is_processed (outcomes (log st) ! nat j)" by auto
  have ns: "\<not> path_exists (files st) (gauntlet_dir @ [l, b, program_name j @ ''.p4''])" for l b
    using linv finv j0 jc np by (rule not_stored_unless_processed)
  have cy: "test_p4_program env fs1 (program_name j) = Error
              \<and> (\<exists>s'. cycle env r s = Inr s'
                    \<and> log s' = log s @ [ErrorTesting (program_name j)]
                    \<and> files s' = unlink fs1 (p4_file_of (program_name j))
                    \<and> \<not> path_exists (files s') (p4_file_of (program_name j))
                    \<and> (\<forall>p. take 1 p = gauntlet_dir
                           \<longrightarrow> map_of (files s') p = map_of (files s) p)
                    \<and> print_summary (files s') = print_summary (files s))"
    if "program_count s = j" "generate_p4_program env (files s) (program_name j) = (True, fs1)"
    for s fs1
  proof -
    have g: "generate_p4_program env (files s) (program_name (program_count s)) = (True, fs1)"
      using that by simp
    have o: "p4spectec env (program_name (program_count s)) = Completed rc out err"
      using that(1) out by simp
    from unrecognised_cycle [OF g ws o nokw, of r] show ?thesis
      unfolding that(1) by blast
  qed
  show ?thesis
    using cl oc ns cy by blast
qed

subsection \<open>When the summary is printed\<close>

lemma summary_after_store:
  assumes c: "cycle env r s = Inr s'"
    and lg: "log s' = log s @ Processed n v # rest"
  shows "n = program_name (program_count s)
       \<and> (if (program_count s + 1) mod 10 = 0
          then \<exists>fs3 rest'.
                 categorize_program env r
                   (snd (generate_p4_program env (files s) n)) n v = Inr (True, fs3)
                 \<and> rest = Summary (print_summary fs3) # rest'
                 \<and> (\<forall>x. Summary x \<notin> set rest')
          else \<forall>x. Summary x \<notin> set rest)"
  using c
proof (cases rule: cycle_cases)
  case (skipped fs1)
  with lg show ?thesis by simp
next
  case (error fs1)
  with lg show ?thesis by simp
next
  case (uncategorized fs1 fs3)
  with lg show ?thesis by simp
next
  case (stored fs1 fs3)
  let ?n = "program_name (program_count s)"
  let ?v = "test_p4_program env fs1 ?n"
  let ?t = "stored_state s fs3 ?v"
  let ?sum = "if (program_count s + 1) mod 10 = 0 then [Summary (print_summary fs3)] else []"
  have lt: "log ?t = log s @ Processed ?n ?v # ?sum"
    by (simp add: stored_state_def Let_def)
  from measure_if_loop_completed_cases [OF stored(4)]
  obtain m where m: "log s' = log ?t @ m" "\<forall>x. Summary x \<notin> set m"
    by auto
  have "log s @ Processed n v # rest = (log s @ Processed ?n ?v # ?sum) @ m"
    using lg m(1) lt by metis
  then have "Processed n v # rest = Processed ?n ?v # (?sum @ m)"
    by simp
  then have eq: "n = ?n" "v = ?v" "rest = ?sum @ m"
    by simp_all
  have cat: "categorize_program env r (snd (generate_p4_program env (files s) n)) n v
      = Inr (True, fs3)"
    using stored(1,3) eq by simp
  show ?thesis
    using eq cat m(2) by auto
qed

text \<open>C4, as the code has it: every cycle raises the program count by one, whatever its
  outcome, and a cycle that stores its program prints a summary right after storing it
  exactly when the program count is then a multiple of 10. The summary scans the files as
  they are after the move.\<close>

theorem summary_follows_program_count:
  assumes "cycle env r s = Inr s'"
  shows "program_count s' = program_count s + 1
       \<and> (\<forall>n v rest. log s' = log s @ Processed n v # rest \<longrightarrow>
             n = program_name (program_count s)
             \<and> (if program_count s' mod 10 = 0
                then \<exists>fs3 rest'.
                       categorize_program env r
                         (snd (generate_p4_program env (files s) n)) n v = Inr (True, fs3)
                       \<and> rest = Summary (print_summary fs3) # rest'
                       \<and> (\<forall>x. Summary x \<notin> set rest')
                else \<forall>x. Summary x \<notin> set rest))"
proof -
  have pc: "program_count s' = program_count s + 1"
    using assms by (rule cycle_program_count)
  show ?thesis
    unfolding pc using summary_after_store [OF assms] by blast
qed

subsection \<open>Concrete runs\<close>

theorem finishing_measures_partial_batch_witness:
  "check_dependencies env_well_typed \<and> 1 \<le> loop_size (GauntletRunner_init 5)
   \<and> map_option (map_sum id log)
        (run_gauntlet env_well_typed (GauntletRunner_init 5) None (Some 13) 14 [])
     = Some (Inr [Processed ''gauntlet00000'' WellTyped, Processed ''gauntlet00001'' WellTyped,
                  Processed ''gauntlet00002'' WellTyped, Processed ''gauntlet00003'' WellTyped,
                  Processed ''gauntlet00004'' WellTyped, MeasureCoverage 0,
                  Processed ''gauntlet00005'' WellTyped, Processed ''gauntlet00006'' WellTyped,
                  Processed ''gauntlet00007'' WellTyped, Processed ''gauntlet00008'' WellTyped,
                  Processed ''gauntlet00009'' WellTyped, Summary (10, 0, 0, 0),
                  MeasureCoverage 1,
                  Processed ''gauntlet00010'' WellTyped, Processed ''gauntlet00011'' WellTyped,
                  Processed ''gauntlet00012'' WellTyped, CountReached,
                  GauntletCompleted 13, MeasureCoverage 2, Summary (13, 0, 0, 0)])
   \<and> map_option (map_sum id files)
        (run_gauntlet env_well_typed (GauntletRunner_init 5) None (Some 13) 14 [])
     = Some (Inr [([''gauntlet'', ''loop00'', ''welltyped'', ''gauntlet00000.p4''], Program),
                  ([''gauntlet'', ''loop00'', ''welltyped'', ''gauntlet00001.p4''], Program),
                  ([''gauntlet'', ''loop00'', ''welltyped'', ''gauntlet00002.p4''], Program),
                  ([''gauntlet'', ''loop00'', ''welltyped'', ''gauntlet00003.p4''], Program),
                  ([''gauntlet'', ''loop00'', ''welltyped'', ''gauntlet00004.p4''], Program),
                  ([''gauntlet'', ''loop00.cov''], Coverage {''loop00''}),
                  ([''gauntlet'', ''loop01'', ''welltyped'', ''gauntlet00005.p4''], Program),
                  ([''gauntlet'', ''loop01'', ''welltyped'', ''gauntlet00006.p4''], Program),
                  ([''gauntlet'', ''loop01'', ''welltyped'', ''gauntlet00007.p4''], Program),
                  ([''gauntlet'', ''loop01'', ''welltyped'', ''gauntlet00008.p4''], Program),
                  ([''gauntlet'', ''loop01'', ''welltyped'', ''gauntlet00009.p4''], Program),
                  ([''gauntlet'', ''loop01.cov''], Coverage {''loop01''}),
                  ([''gauntlet'', ''loop02'', ''welltyped'', ''gauntlet00010.p4''], Program),
                  ([''gauntlet'', ''loop02'', ''welltyped'', ''gauntlet00011.p4''], Program),
                  ([''gauntlet'', ''loop02'', ''welltyped'', ''gauntlet00012.p4''], Program),
                  ([''gauntlet'', ''loop02.cov''], Coverage {''loop02''})])
   \<and> map_option (map_sum id (\<lambda>st. (program_count st, last_cycle_measured (log st),
                                     path_exists (files st) (cov_file_of 2))))
        (run_loop env_well_typed (GauntletRunner_init 5) None (Some 13) 14 (initial_state []))
     = Some (Inr (13, False, False))"
proof -
  have deps: "check_dependencies env_well_typed" by code_simp
  have ls: "1 \<le> loop_size (GauntletRunner_init 5)" by code_simp
  have ev: "map_option (map_sum id log)
        (run_gauntlet env_well_typed (GauntletRunner_init 5) None (Some 13) 14 [])
     = Some (Inr [Processed ''gauntlet00000'' WellTyped, Processed ''gauntlet00001'' WellTyped,
                  Processed ''gauntlet00002'' WellTyped, Processed ''gauntlet00003'' WellTyped,
                  Processed ''gauntlet00004'' WellTyped, MeasureCoverage 0,
                  Processed ''gauntlet00005'' WellTyped, Processed ''gauntlet00006'' WellTyped,
                  Processed ''gauntlet00007'' WellTyped, Processed ''gauntlet00008'' WellTyped,
                  Processed ''gauntlet00009'' WellTyped, Summary (10, 0, 0, 0),
                  MeasureCoverage 1,
                  Processed ''gauntlet00010'' WellTyped, Processed ''gauntlet00011'' WellTyped,
                  Processed ''gauntlet00012'' WellTyped, CountReached,
                  GauntletCompleted 13, MeasureCoverage 2, Summary (13, 0, 0, 0)])"
    by code_simp
  have fv: "map_option (map_sum id files)
        (run_gauntlet env_well_typed (GauntletRunner_init 5) None (Some 13) 14 [])
     = Some (Inr [([''gauntlet'', ''loop00'', ''welltyped'', ''gauntlet00000.p4''], Program),
                  ([''gauntlet'', ''loop00'', ''welltyped'', ''gauntlet00001.p4''], Program),
                  ([''gauntlet'', ''loop00'', ''welltyped'', ''gauntlet00002.p4''], Program),
                  ([''gauntlet'', ''loop00'', ''welltyped'', ''gauntlet00003.p4''], Program),
                  ([''gauntlet'', ''loop00'', ''welltyped'', ''gauntlet00004.p4''], Program),
                  ([''gauntlet'', ''loop00.cov''], Coverage {''loop00''}),
                  ([''gauntlet'', ''loop01'', ''welltyped'', ''gauntlet00005.p4''], Program),
                  ([''gauntlet'', ''loop01'', ''welltyped'', ''gauntlet00006.p4''], Program),
                  ([''gauntlet'', ''loop01'', ''welltyped'', ''gauntlet00007.p4''], Program),
                  ([''gauntlet'', ''loop01'', ''welltyped'', ''gauntlet00008.p4''], Program),
                  ([''gauntlet'', ''loop01'', ''welltyped'', ''gauntlet00009.p4''], Program),
                  ([''gauntlet'', ''loop01.cov''], Coverage {''loop01''}),
                  ([''gauntlet'', ''loop02'', ''welltyped'', ''gauntlet00010.p4''], Program),
                  ([''gauntlet'', ''loop02'', ''welltyped'', ''gauntlet00011.p4''], Program),
                  ([''gauntlet'', ''loop02'', ''welltyped'', ''gauntlet00012.p4''], Program),
                  ([''gauntlet'', ''loop02.cov''], Coverage {''loop02''})])"
    by code_simp
  have lp: "map_option (map_sum id (\<lambda>st. (program_count st, last_cycle_measured (log st),
                                     path_exists (files st) (cov_file_of 2))))
        (run_loop env_well_typed (GauntletRunner_init 5) None (Some 13) 14 (initial_state []))
     = Some (Inr (13, False, False))"
    by code_simp
  from ev obtain res where
    run: "run_gauntlet env_well_typed (GauntletRunner_init 5) None (Some 13) 14 [] = Some res"
    by (cases "run_gauntlet env_well_typed (GauntletRunner_init 5) None (Some 13) 14 []") auto
  from finishing_measures_partial_batch [OF deps ls run] deps ls ev fv lp
  show ?thesis by blast
qed

text \<open>C1: the coverage record of a loop is not the union with the record of the loop
  before. With loop size 1 and two programs, the records after the run are the raw
  measurements \<open>{loop00}\<close> and \<open>{loop01}\<close>: the previous record is written to
  \<open>gauntlet/loop00.cov\<close> and looked for at \<open>loop00.cov\<close> below the project root. Only a
  record placed at that other path is united with the new one.\<close>

theorem coverage_union_misses_persisted_record:
  "map_option (map_sum id files)
     (run_gauntlet env_well_typed (GauntletRunner_init 1) None (Some 2) 3 [])
   = Some (Inr [([''gauntlet'', ''loop00'', ''welltyped'', ''gauntlet00000.p4''], Program),
                ([''gauntlet'', ''loop00.cov''], Coverage {''loop00''}),
                ([''gauntlet'', ''loop01'', ''welltyped'', ''gauntlet00001.p4''], Program),
                ([''gauntlet'', ''loop01.cov''], Coverage {''loop01''})])
   \<and> cov_file_of 1 = [''gauntlet'', ''loop01.cov'']
   \<and> prev_cov_of 1 = [''loop00.cov'']
   \<and> read_coverage
        (measure_loop_coverage env_well_typed
           [([''gauntlet'', ''loop00.cov''], Coverage {''loop00''})] 1) (cov_file_of 1)
      = Some {''loop01''}
   \<and> read_coverage
        (measure_loop_coverage env_well_typed
           [([''loop00.cov''], Coverage {''loop00''})] 1) (cov_file_of 1)
      = Some {''loop00'', ''loop01''}"
  by code_simp

text \<open>C2: with loop size 2 and four programs, of which the second cannot be generated,
  index 1 completes loop 0, but the cycle is left before the measurement: loop 0 is never
  measured, neither at its boundary nor later. When the run ends with that index (two
  programs), the lines after the loop do measure loop 0.\<close>

theorem batch_not_measured_after_failed_generation:
  "map_option (map_sum id log)
     (run_gauntlet (env_generation_fails ''gauntlet00001'') (GauntletRunner_init 2)
        None (Some 4) 5 [])
   = Some (Inr [Processed ''gauntlet00000'' WellTyped, Skipped ''gauntlet00001'',
                Processed ''gauntlet00002'' WellTyped, Processed ''gauntlet00003'' WellTyped,
                MeasureCoverage 1, CountReached, GauntletCompleted 4, Summary (3, 0, 0, 0)])
   \<and> (1 + 1) mod loop_size (GauntletRunner_init 2) = 0
   \<and> map_option (map_sum id log)
     (run_gauntlet (env_generation_fails ''gauntlet00001'') (GauntletRunner_init 2)
        None (Some 2) 3 [])
   = Some (Inr [Processed ''gauntlet00000'' WellTyped, Skipped ''gauntlet00001'',
                CountReached, GauntletCompleted 2, MeasureCoverage 0, Summary (1, 0, 0, 0)])"
  by code_simp

text \<open>C4, as stated, fails: when the first of twelve programs cannot be generated, the
  tenth stored program (index 10) is followed by the next program, not by a summary, and
  the one summary of the loop comes after nine stored programs.\<close>

theorem summary_not_after_ten_stored:
  "map_option (map_sum id log)
     (run_gauntlet (env_generation_fails ''gauntlet00000'') (GauntletRunner_init 1000)
        None (Some 12) 13 [])
   = Some (Inr [Skipped ''gauntlet00000'',
                Processed ''gauntlet00001'' WellTyped, Processed ''gauntlet00002'' WellTyped,
                Processed ''gauntlet00003'' WellTyped, Processed ''gauntlet00004'' WellTyped,
                Processed ''gauntlet00005'' WellTyped, Processed ''gauntlet00006'' WellTyped,
                Processed ''gauntlet00007'' WellTyped, Processed ''gauntlet00008'' WellTyped,
                Processed ''gauntlet00009'' WellTyped, Summary (9, 0, 0, 0),
                Processed ''gauntlet00010'' WellTyped, Processed ''gauntlet00011'' WellTyped,
                CountReached, GauntletCompleted 12, MeasureCoverage 0, Summary (11, 0, 0, 0)])
   \<and> \<not> summary_after_every_10_stored 0
         [Skipped ''gauntlet00000'',
          Processed ''gauntlet00001'' WellTyped, Processed ''gauntlet00002'' WellTyped,
          Processed ''gauntlet00003'' WellTyped, Processed ''gauntlet00004'' WellTyped,
          Processed ''gauntlet00005'' WellTyped, Processed ''gauntlet00006'' WellTyped,
          Processed ''gauntlet00007'' WellTyped, Processed ''gauntlet00008'' WellTyped,
          Processed ''gauntlet00009'' WellTyped, Summary (9, 0, 0, 0),
          Processed ''gauntlet00010'' WellTyped, Processed ''gauntlet00011'' WellTyped,
          CountReached, GauntletCompleted 12, MeasureCoverage 0, Summary (11, 0, 0, 0)]"
  by code_simp



theorem unrecognised_output_is_discarded_witness:
  "file_paths [] = {}
   \<and> 1 \<le> loop_size (GauntletRunner_init 5)
   \<and> map_option (map_sum id (\<lambda>st. (program_count st, log st, files st)))
        (run_gauntlet env_oracle_crash (GauntletRunner_init 5) None (Some 2) 3 [])
      = Some (Inr (2, [ErrorTesting ''gauntlet00000'', ErrorTesting ''gauntlet00001'',
                       CountReached, GauntletCompleted 2, MeasureCoverage 0,
                       Summary (0, 0, 0, 0)],
                   [([''gauntlet'', ''loop00.cov''], Coverage {''loop00''})]))
   \<and> (0::int) \<le> 1 \<and> (1::int) < 2
   \<and> watsup_files env_oracle_crash \<noteq> []
   \<and> p4spectec env_oracle_crash (program_name 1) = Completed 1 ''error: crash'' []
   \<and> \<not> occurs_ci ''well-typed'' (''error: crash'' @ [])
   \<and> \<not> occurs_ci ''ill-typed'' (''error: crash'' @ [])
   \<and> \<not> occurs_ci ''ill-formed'' (''error: crash'' @ [])
   \<and> classify ''error: crash'' [] = Error"
proof -
  have fresh: "\<forall>p\<in>file_paths []. take 1 p \<noteq> gauntlet_dir" by (simp add: file_paths_def)
  have ls: "1 \<le> loop_size (GauntletRunner_init 5)" by code_simp
  have ev: "map_option (map_sum id (\<lambda>st. (program_count st, log st, files st)))
        (run_gauntlet env_oracle_crash (GauntletRunner_init 5) None (Some 2) 3 [])
      = Some (Inr (2, [ErrorTesting ''gauntlet00000'', ErrorTesting ''gauntlet00001'',
                       CountReached, GauntletCompleted 2, MeasureCoverage 0,
                       Summary (0, 0, 0, 0)],
                   [([''gauntlet'', ''loop00.cov''], Coverage {''loop00''})]))"
    by code_simp
  then obtain st where
    run: "run_gauntlet env_oracle_crash (GauntletRunner_init 5) None (Some 2) 3 [] = Some (Inr st)"
    and pc: "program_count st = 2"
    by (cases "run_gauntlet env_oracle_crash (GauntletRunner_init 5) None (Some 2) 3 []")
       (auto simp: map_sum_def split: sum.splits)
  have j0: "(0::int) \<le> 1" by simp
  have jc: "1 < program_count st" using pc by simp
  have ws: "watsup_files env_oracle_crash \<noteq> []" by code_simp
  have out: "p4spectec env_oracle_crash (program_name 1) = Completed 1 ''error: crash'' []"
    by code_simp
  have a: "\<not> contains (lower (''error: crash'' @ [])) (lower ''well-typed'')" by code_simp
  have b: "\<not> contains (lower (''error: crash'' @ [])) (lower ''ill-typed'')" by code_simp
  have c: "\<not> contains (lower (''error: crash'' @ [])) (lower ''ill-formed'')" by code_simp
  have nokw: "\<not> occurs_ci ''well-typed'' (''error: crash'' @ [])"
      "\<not> occurs_ci ''ill-typed'' (''error: crash'' @ [])"
      "\<not> occurs_ci ''ill-formed'' (''error: crash'' @ [])"
    unfolding occurs_ci_iff using a b c by blast+
  from unrecognised_output_is_discarded [OF fresh ls run j0 jc ws out nokw]
  have "classify ''error: crash'' [] = Error" by blast
  then show ?thesis
    using ls ev ws out nokw by (simp add: file_paths_def)
qed

theorem summary_follows_program_count_witness:
  "map_sum id (\<lambda>st. (program_count st, log st))
     (cycle env_well_typed (GauntletRunner_init 1000)
        ((initial_state [])\<lparr> program_count := 9 \<rparr>))
     = Inr (10, [] @ Processed ''gauntlet00009'' WellTyped # [Summary (1, 0, 0, 0)])
   \<and> map_sum id (\<lambda>st. (program_count st, log st))
     (cycle env_well_typed (GauntletRunner_init 1000)
        ((initial_state [])\<lparr> program_count := 10 \<rparr>))
     = Inr (11, [] @ Processed ''gauntlet00010'' WellTyped # [])
   \<and> map_sum id (\<lambda>st. (program_count st, log st))
     (cycle (env_generation_fails ''gauntlet00009'') (GauntletRunner_init 1000)
        ((initial_state [])\<lparr> program_count := 9 \<rparr>))
     = Inr (10, [Skipped ''gauntlet00009''])"
proof -
  let ?s9 = "(initial_state [])\<lparr> program_count := 9 \<rparr>"
  let ?s10 = "(initial_state [])\<lparr> program_count := 10 \<rparr>"
  have e9: "map_sum id (\<lambda>st. (program_count st, log st))
       (cycle env_well_typed (GauntletRunner_init 1000) ?s9)
     = Inr (10, [] @ Processed ''gauntlet00009'' WellTyped # [Summary (1, 0, 0, 0)])"
    by code_simp
  have e10: "map_sum id (\<lambda>st. (program_count st, log st))
       (cycle env_well_typed (GauntletRunner_init 1000) ?s10)
     = Inr (11, [] @ Processed ''gauntlet00010'' WellTyped # [])"
    by code_simp
  have f9: "map_sum id (\<lambda>st. (program_count st, log st))
       (cycle (env_generation_fails ''gauntlet00009'') (GauntletRunner_init 1000) ?s9)
     = Inr (10, [Skipped ''gauntlet00009''])"
    by code_simp
  from e9 obtain a where a: "cycle env_well_typed (GauntletRunner_init 1000) ?s9 = Inr a"
    by (cases "cycle env_well_typed (GauntletRunner_init 1000) ?s9") auto
  from e10 obtain b where b: "cycle env_well_typed (GauntletRunner_init 1000) ?s10 = Inr b"
    by (cases "cycle env_well_typed (GauntletRunner_init 1000) ?s10") auto
  from f9 obtain d where
    d: "cycle (env_generation_fails ''gauntlet00009'') (GauntletRunner_init 1000) ?s9 = Inr d"
    by (cases "cycle (env_generation_fails ''gauntlet00009'') (GauntletRunner_init 1000) ?s9")
       auto
  from summary_follows_program_count [OF a] summary_follows_program_count [OF b]
    summary_follows_program_count [OF d] e9 e10 f9
  show ?thesis by blast
qed

end
